theory Spec2Isabelle
  imports Complex_Main "HOL-Library.Sublist"
begin

section \<open>Text chunking (sledgehammer\_playwright.py, chunk\_text)\<close>

text \<open>
  Python strings are modelled as \<open>string\<close>, Python integers as \<open>int\<close>.
  The slice \<^verbatim>\<open>xs[lo:hi]\<close> of Python clamps both bounds into \<open>0..len(xs)\<close>, a negative
  bound counting from the end.
\<close>

definition py_slice :: "'a list \<Rightarrow> int \<Rightarrow> int \<Rightarrow> 'a list" where
  "py_slice xs lo hi =
     (let n = int (length xs);
          clampi = (\<lambda>k. if k < 0 then max 0 (n + k) else min k n);
          l = clampi lo;
          h = clampi hi
      in take (nat (h - l)) (drop (nat l) xs))"

definition CHUNK_OVERLAP :: int where
  "CHUNK_OVERLAP = 800"

record chunk =
  index :: nat
  ctext :: string  \<comment> \<open>the key "text" of the source\<close>

text \<open>
  The \<^verbatim>\<open>while i < L\<close> loop of \<^verbatim>\<open>chunk_text\<close>. The loop does not end when
  \<^verbatim>\<open>chunk_size\<close> is not positive, so it is a partial function: \<open>None\<close> is
  "never returns".
\<close>

partial_function (option) chunk_loop :: "string \<Rightarrow> int \<Rightarrow> int \<Rightarrow> chunk list \<Rightarrow> chunk list option" where
  "chunk_loop big chunk_size i chunks =
     (if i < int (length big)
      then chunk_loop big chunk_size (i + chunk_size)
             (chunks @ [\<lparr>index = length chunks,
                         ctext = py_slice big (max 0 (i - CHUNK_OVERLAP)) (i + chunk_size)\<rparr>])
      else Some chunks)"

declare chunk_loop.simps [code]

definition chunk_text :: "string \<Rightarrow> int \<Rightarrow> chunk list option" where
  "chunk_text big chunk_size = chunk_loop big chunk_size 0 []"

text \<open>
  The chunk that the loop appends in its \<open>k\<close>-th round, when \<open>i = k * chunk_size\<close>.
\<close>

definition chunk_at :: "string \<Rightarrow> int \<Rightarrow> nat \<Rightarrow> chunk" where
  "chunk_at big chunk_size k =
     \<lparr>index = k,
      ctext = py_slice big (max 0 (int k * chunk_size - CHUNK_OVERLAP)) (int k * chunk_size + chunk_size)\<rparr>"

text \<open>
  What the specification calls the place where a chunk starts: \<open>t\<close> is read off
  \<open>big\<close> from offset \<open>a\<close> on.
\<close>

definition starts_at :: "string \<Rightarrow> int \<Rightarrow> string \<Rightarrow> bool" where
  "starts_at big a t = (0 \<le> a \<and> a \<le> int (length big) \<and> prefix t (drop (nat a) big))"

definition ceil_div :: "nat \<Rightarrow> int \<Rightarrow> nat" where
  "ceil_div L S = nat \<lceil>real L / real_of_int S\<rceil>"

section \<open>Python values and the outside world\<close>

text \<open>
  Exceptions are values. \<open>str_of\<close> is Python's \<^verbatim>\<open>str(e)\<close>, the message of the exception.
\<close>

datatype exn = ValueError string | RequestException string | OSError string

fun str_of :: "exn \<Rightarrow> string" where
  "str_of (ValueError m) = m"
| "str_of (RequestException m) = m"
| "str_of (OSError m) = m"

text \<open>
  \<^verbatim>\<open>list(dict.fromkeys(xs))\<close>: the keys of a dictionary in insertion order. Inserting a key
  that is already there leaves the order as it is.
\<close>

fun fromkeys_into :: "'a list \<Rightarrow> 'a list \<Rightarrow> 'a list" where
  "fromkeys_into keys [] = keys"
| "fromkeys_into keys (x # xs) = fromkeys_into (if x \<in> set keys then keys else keys @ [x]) xs"

definition fromkeys :: "'a list \<Rightarrow> 'a list" where
  "fromkeys xs = fromkeys_into [] xs"

text \<open>\<^verbatim>\<open>s.strip(chars)\<close> and \<^verbatim>\<open>s.lstrip(chars)\<close>, the characters given as a list.\<close>

definition lstrip :: "char list \<Rightarrow> string \<Rightarrow> string" where
  "lstrip chars s = dropWhile (\<lambda>c. c \<in> set chars) s"

definition strip :: "char list \<Rightarrow> string \<Rightarrow> string" where
  "strip chars s = rev (dropWhile (\<lambda>c. c \<in> set chars) (rev (dropWhile (\<lambda>c. c \<in> set chars) s)))"

text \<open>Lower case of an ASCII letter; every other character stays.\<close>

definition to_lower :: "char \<Rightarrow> char" where
  "to_lower c =
     (case map_of (zip ''ABCDEFGHIJKLMNOPQRSTUVWXYZ'' ''abcdefghijklmnopqrstuvwxyz'') c of
        Some l \<Rightarrow> l
      | None \<Rightarrow> c)"

text \<open>
  The result of \<^verbatim>\<open>urllib.parse.urlparse\<close>, with the components the program reads, and the
  response of \<^verbatim>\<open>requests.get\<close>.
\<close>

record parse_result =
  scheme :: string
  netloc :: string
  path :: string
  query :: string

record response =
  status_code :: int
  content_type_header :: "string option"
  content :: string

text \<open>
  The library calls and the effects of the program are parameters of the model, one
  record for one run of the program:
  \<^item> \<open>urlparse\<close> and \<open>urljoin\<close> of \<^verbatim>\<open>urllib.parse\<close>; both raise \<^verbatim>\<open>ValueError\<close> on some
    inputs;
  \<^item> \<open>py_hash\<close>, the built-in \<^verbatim>\<open>hash\<close> on strings, which is salted anew for every
    process;
  \<^item> \<open>requests_get\<close>, the call \<^verbatim>\<open>requests.get(url, headers=HEADERS, timeout=20, stream=True)\<close>;
  \<^item> \<open>save_body\<close>, writing the streamed body to a path and reading the file's size
    back (\<^verbatim>\<open>open\<close>, \<^verbatim>\<open>iter_content\<close>, \<^verbatim>\<open>write\<close>, \<^verbatim>\<open>stat\<close>);
  \<^item> \<open>capture\<close>, what \<^verbatim>\<open>render_and_capture\<close>, the reading of \<^verbatim>\<open>colors.txt\<close> and the
    parsing of the captured HTML give for a URL: the \<^verbatim>\<open>href\<close> values of its anchors in
    document order, or the exception one of them raised;
  \<^item> \<open>export_csv\<close>, the call of \<^verbatim>\<open>selector_map_to_csv\<close> for the page with the given
    number.
\<close>

record world =
  urlparse :: "string \<Rightarrow> exn + parse_result"
  urljoin :: "string \<Rightarrow> string \<Rightarrow> exn + string"
  py_hash :: "string \<Rightarrow> int"
  requests_get :: "string \<Rightarrow> exn + response"
  save_body :: "string \<Rightarrow> response \<Rightarrow> exn + int"
  capture :: "string \<Rightarrow> exn + string list"
  export_csv :: "string \<Rightarrow> int \<Rightarrow> exn + unit"

section \<open>URLs and file names (sledgehammer\_playwright.py)\<close>

definition is_same_origin :: "world \<Rightarrow> string \<Rightarrow> string \<Rightarrow> bool" where
  "is_same_origin w base_url candidate =
     (case urlparse w base_url of
        Inl _ \<Rightarrow> False
      | Inr b \<Rightarrow>
          (case urlparse w candidate of
             Inl _ \<Rightarrow> False
           | Inr c \<Rightarrow> (scheme b, netloc b) = (scheme c, netloc c)))"

text \<open>The function \<^verbatim>\<open>norm\<close> of the source.\<close>

definition norm_url :: "world \<Rightarrow> string \<Rightarrow> string \<Rightarrow> exn + string" where
  "norm_url w base href = urljoin w base href"

text \<open>\<^verbatim>\<open>os.path.basename\<close>: what follows the last slash.\<close>

definition basename :: "string \<Rightarrow> string" where
  "basename p = rev (takeWhile (\<lambda>c. c \<noteq> CHR ''/'') (rev p))"

text \<open>\<^verbatim>\<open>str(n)\<close> for a natural number: its decimal digits.\<close>

definition digit_char :: "nat \<Rightarrow> char" where
  "digit_char d = ''0123456789'' ! d"

fun str_nat :: "nat \<Rightarrow> string" where
  "str_nat n = (if n < 10 then [digit_char n] else str_nat (n div 10) @ [digit_char (n mod 10)])"

declare str_nat.simps [simp del]

text \<open>The character class \<^verbatim>\<open>[0-9A-Za-z._-]\<close> and the substitution \<^verbatim>\<open>re.sub\<close> makes with it.\<close>

definition safe_char :: "char \<Rightarrow> bool" where
  "safe_char c =
     (let n = (of_char c :: nat)
      in (48 \<le> n \<and> n \<le> 57) \<or> (65 \<le> n \<and> n \<le> 90) \<or> (97 \<le> n \<and> n \<le> 122)
         \<or> c = CHR ''.'' \<or> c = CHR ''_'' \<or> c = CHR ''-'')"

definition sub_unsafe :: "string \<Rightarrow> string" where
  "sub_unsafe s = map (\<lambda>c. if safe_char c then c else CHR ''_'') s"

definition filename_from_url :: "world \<Rightarrow> string \<Rightarrow> exn + string" where
  "filename_from_url w url =
     (case urlparse w url of
        Inl e \<Rightarrow> Inl e
      | Inr p \<Rightarrow>
          (let base = (if basename (path p) = [] then ''index'' else basename (path p));
               base' = (if query p \<noteq> []
                        then base @ ''_'' @ str_nat (nat (\<bar>py_hash w (query p)\<bar> mod 10 ^ 8))
                        else base)
           in Inr (sub_unsafe base')))"

section \<open>Downloading assets (download\_asset, render\_and\_capture)\<close>

text \<open>
  A dictionary of the source is the list of its keys and values in insertion order.
\<close>

datatype pyval = PyStr string | PyInt int | PyNone

type_synonym pydict = "(string \<times> pyval) list"

definition keys :: "pydict \<Rightarrow> string list" where
  "keys d = map fst d"

definition ASSETS_DIR :: string where
  "ASSETS_DIR = ''crawl_output_playwright/assets''"

text \<open>
  \<^verbatim>\<open>str(ASSETS_DIR / name)\<close> for a name without a slash: \<^verbatim>\<open>pathlib\<close> drops a component
  that is a single dot.
\<close>

definition asset_path :: "string \<Rightarrow> string" where
  "asset_path name = (if name = ''.'' \<or> name = [] then ASSETS_DIR else ASSETS_DIR @ ''/'' @ name)"

text \<open>
  \<^verbatim>\<open>r.raise_for_status()\<close> raises for the status codes 400 to 599. The message of the
  exception is abridged to the status code.
\<close>

definition raise_for_status :: "response \<Rightarrow> exn + unit" where
  "raise_for_status r =
     (if 400 \<le> status_code r \<and> status_code r < 600
      then Inl (RequestException (str_nat (nat (status_code r)) @ '' Error''))
      else Inr ())"

text \<open>
  \<open>download_asset\<close>: \<open>Inr\<close> is the dictionary returned, \<open>Inl\<close> an exception that leaves the
  function. The call of \<open>filename_from_url\<close> stands between the two \<^verbatim>\<open>try\<close> blocks.
\<close>

definition download_asset :: "world \<Rightarrow> string \<Rightarrow> exn + pydict" where
  "download_asset w url =
     (case (case requests_get w url of
              Inl e \<Rightarrow> Inl e
            | Inr r \<Rightarrow> (case raise_for_status r of Inl e \<Rightarrow> Inl e | Inr _ \<Rightarrow> Inr r)) of
        Inl e \<Rightarrow> Inr [(''url'', PyStr url), (''error'', PyStr (str_of e))]
      | Inr r \<Rightarrow>
          (case filename_from_url w url of
             Inl e \<Rightarrow> Inl e
           | Inr name \<Rightarrow>
               (let local = asset_path name
                in case save_body w local r of
                     Inl e \<Rightarrow> Inr [(''url'', PyStr url), (''error'', PyStr (''save_failed: '' @ str_of e))]
                   | Inr nbytes \<Rightarrow>
                       Inr [(''url'', PyStr url),
                            (''local_path'', PyStr local),
                            (''status'', PyInt (status_code r)),
                            (''content_type'',
                               (case content_type_header r of None \<Rightarrow> PyNone | Some t \<Rightarrow> PyStr t)),
                            (''bytes'', PyInt nbytes)])))"

text \<open>
  The end of \<open>render_and_capture\<close>: the list of assets to download, and the loop that
  downloads them one after the other. An exception of \<open>download_asset\<close> ends the loop.
\<close>

definition all_assets :: "string list \<Rightarrow> string list \<Rightarrow> string list" where
  "all_assets dom_assets assets_from_css =
     (let a = fromkeys (dom_assets @ assets_from_css)
      in if length a > 250 then take 250 a else a)"

fun download_loop :: "world \<Rightarrow> string list \<Rightarrow> pydict list \<Rightarrow> exn + pydict list" where
  "download_loop w [] assets_meta = Inr assets_meta"
| "download_loop w (a # as) assets_meta =
     (case download_asset w a of
        Inl e \<Rightarrow> Inl e
      | Inr m \<Rightarrow> download_loop w as (assets_meta @ [m]))"

text \<open>The URLs \<open>download_asset\<close> is called with, in the order of the calls.\<close>

fun requested :: "world \<Rightarrow> string list \<Rightarrow> string list" where
  "requested w [] = []"
| "requested w (a # as) =
     (case download_asset w a of
        Inl e \<Rightarrow> [a]
      | Inr m \<Rightarrow> a # requested w as)"

definition download_assets :: "world \<Rightarrow> string list \<Rightarrow> string list \<Rightarrow> exn + pydict list" where
  "download_assets w dom_assets assets_from_css =
     download_loop w (all_assets (fromkeys dom_assets) (fromkeys assets_from_css)) []"

section \<open>The depth-1 crawl (crawl\_depth1)\<close>

text \<open>
  The state of the loop: the set \<open>visited\<close>, the list \<open>queue\<close>, the counter \<open>pg\<close>, and
  a log \<open>captured\<close> of the URLs \<^verbatim>\<open>render_and_capture\<close> has been called with, in the order
  of the calls. The function ends either by leaving the loop or by an exception that no
  handler catches; both keep the state reached.
\<close>

record crawl_state =
  visited :: "string set"
  queue :: "string list"
  pg :: int
  captured :: "string list"

datatype outcome = Finished crawl_state | Raised exn crawl_state

fun final_state :: "outcome \<Rightarrow> crawl_state" where
  "final_state (Finished s) = s"
| "final_state (Raised e s) = s"

text \<open>
  The \<^verbatim>\<open>for a in soup.find_all("a", href=True)\<close> loop over the \<^verbatim>\<open>href\<close> values of a page:
  the queue it leaves, and the exception of \<^verbatim>\<open>norm\<close> that stopped it, if any.
\<close>

fun discover :: "world \<Rightarrow> bool \<Rightarrow> string \<Rightarrow> string set \<Rightarrow> string \<Rightarrow> string list \<Rightarrow> string list
                 \<Rightarrow> exn option \<times> string list" where
  "discover w same_origin start_url vis url [] q = (None, q)"
| "discover w same_origin start_url vis url (href # hrefs) q =
     (case norm_url w url href of
        Inl e \<Rightarrow> (Some e, q)
      | Inr nxt \<Rightarrow>
          if prefix ''mailto:'' nxt \<or> prefix ''javascript:'' nxt
          then discover w same_origin start_url vis url hrefs q
          else if nxt \<notin> vis \<and> nxt \<notin> set q
          then (if (\<not> same_origin) \<or> is_same_origin w start_url nxt
                then discover w same_origin start_url vis url hrefs (q @ [nxt])
                else discover w same_origin start_url vis url hrefs q)
          else discover w same_origin start_url vis url hrefs q)"

text \<open>
  The \<^verbatim>\<open>while queue and pg < max_pages\<close> loop. \<open>origin\<close> is the network location of the
  start URL, computed before the loop.
\<close>

function crawl_loop :: "world \<Rightarrow> string \<Rightarrow> int \<Rightarrow> bool \<Rightarrow> string \<Rightarrow> crawl_state \<Rightarrow> outcome" where
  "crawl_loop w start_url max_pages same_origin origin s =
     (if queue s \<noteq> [] \<and> pg s < max_pages
      then
        (let url = hd (queue s);
             s1 = s\<lparr>queue := tl (queue s)\<rparr>
         in if url \<in> visited s1 then crawl_loop w start_url max_pages same_origin origin s1
            else
              (case (if same_origin
                     then (case urlparse w url of
                             Inl e \<Rightarrow> Inl e
                           | Inr p \<Rightarrow> Inr (netloc p \<noteq> origin))
                     else Inr False) of
                 Inl e \<Rightarrow> Raised e s1
               | Inr True \<Rightarrow> crawl_loop w start_url max_pages same_origin origin s1
               | Inr False \<Rightarrow>
                   (let s2 = s1\<lparr>visited := insert url (visited s1), pg := pg s1 + 1,
                                 captured := captured s1 @ [url]\<rparr>
                    in case capture w url of
                         Inl e \<Rightarrow> Raised e s2
                       | Inr hrefs \<Rightarrow>
                           (case discover w same_origin start_url (visited s2) url hrefs (queue s2) of
                              (Some e, q) \<Rightarrow> Raised e (s2\<lparr>queue := q\<rparr>)
                            | (None, q) \<Rightarrow>
                                (case export_csv w url (pg s2) of
                                   Inl e \<Rightarrow> Raised e (s2\<lparr>queue := q\<rparr>)
                                 | Inr _ \<Rightarrow>
                                     crawl_loop w start_url max_pages same_origin origin
                                       (s2\<lparr>queue := q\<rparr>))))))
      else Finished s)"
  by pat_completeness auto
termination
  by (relation "measures [\<lambda>(w, start_url, max_pages, same_origin, origin, s). nat (max_pages - pg s),
                          \<lambda>(w, start_url, max_pages, same_origin, origin, s). length (queue s)]")
     auto

definition crawl_depth1 :: "world \<Rightarrow> string \<Rightarrow> int \<Rightarrow> bool \<Rightarrow> outcome" where
  "crawl_depth1 w start_url max_pages same_origin =
     (let s0 = \<lparr>visited = {}, queue = [start_url], pg = 0, captured = []\<rparr>
      in case urlparse w start_url of
           Inl e \<Rightarrow> Raised e s0
         | Inr p \<Rightarrow> crawl_loop w start_url max_pages same_origin (netloc p) s0)"

text \<open>The lines of \<^verbatim>\<open>visited_urls.txt\<close>, written only when the loop has been left.\<close>

fun visited_urls :: "outcome \<Rightarrow> string set" where
  "visited_urls (Finished s) = visited s"
| "visited_urls (Raised e s) = {}"

text \<open>The loop is left only when its condition is false.\<close>

definition loop_left :: "int \<Rightarrow> outcome \<Rightarrow> bool" where
  "loop_left max_pages out =
     (case out of Finished s \<Rightarrow> queue s = [] \<or> max_pages \<le> pg s | Raised e s \<Rightarrow> True)"

text \<open>
  The invariant of the frontier: no URL twice in the queue, none both queued and
  visited, the visited URLs are those \<^verbatim>\<open>render_and_capture\<close> was called with, each once,
  and \<open>pg\<close> counts them.
\<close>

definition frontier_inv :: "crawl_state \<Rightarrow> bool" where
  "frontier_inv s =
     (distinct (queue s) \<and> set (queue s) \<inter> visited s = {} \<and>
      distinct (captured s) \<and> visited s = set (captured s) \<and>
      pg s = int (length (captured s)))"

definition origin_inv :: "world \<Rightarrow> string \<Rightarrow> crawl_state \<Rightarrow> bool" where
  "origin_inv w start_url s = (\<forall>u \<in> visited s \<union> set (queue s). is_same_origin w start_url u)"

section \<open>References in style sheets (extract\_urls\_from\_css)\<close>

text \<open>
  \<^verbatim>\<open>re.finditer\<close> scans the text from left to right for matches that do not overlap. A
  pattern is given by its matcher at a position: the text from the position on is
  mapped to group 1 of the match and the text after the match. \<open>skip\<close> counts the
  characters of the last match that the scan has still to pass.
\<close>

fun finditer :: "(string \<Rightarrow> (string \<times> string) option) \<Rightarrow> nat \<Rightarrow> string \<Rightarrow> string list" where
  "finditer m skip [] = []"
| "finditer m skip (c # cs) =
     (if 0 < skip then finditer m (skip - 1) cs
      else (case m (c # cs) of
              None \<Rightarrow> finditer m 0 cs
            | Some (g, rest) \<Rightarrow> g # finditer m (length cs - length rest) cs))"

text \<open>The flag \<^verbatim>\<open>re.I\<close>: a lower-case pattern matches the text whatever its case.\<close>

definition prefix_ci :: "string \<Rightarrow> string \<Rightarrow> bool" where
  "prefix_ci pat s = (length pat \<le> length s \<and> map to_lower (take (length pat) s) = pat)"

text \<open>The class \<^verbatim>\<open>\s\<close>, for the characters below 256.\<close>

definition is_re_space :: "char \<Rightarrow> bool" where
  "is_re_space c = ((of_char c :: nat) \<in> {9, 10, 11, 12, 13, 28, 29, 30, 31, 32, 133, 160})"

definition quote_chars :: "char list" where
  "quote_chars = [CHR ''\"'', CHR 0x27]"

text \<open>
  The pattern \<^verbatim>\<open>url\(([^)]+)\)\<close>: after \<^verbatim>\<open>url(\<close> a non-empty run of characters other than
  the closing parenthesis, which has to follow.
\<close>

definition url_at :: "string \<Rightarrow> (string \<times> string) option" where
  "url_at s =
     (if prefix_ci ''url('' s
      then (let body = takeWhile (\<lambda>x. x \<noteq> CHR '')'') (drop 4 s);
                after = dropWhile (\<lambda>x. x \<noteq> CHR '')'') (drop 4 s)
            in if body \<noteq> [] \<and> after \<noteq> [] then Some (body, tl after) else None)
      else None)"

text \<open>
  The pattern \<^verbatim>\<open>@import\s+(?:url\()?["']?([^"')]+)\<close>. The group is the longest run of
  characters other than quotes and the closing parenthesis; the matcher tries, in the
  order of the regular expression engine: all the white space, then \<^verbatim>\<open>url(\<close> with and
  without a quote, then a quote alone, then nothing; and at last one white-space
  character less, which then opens the group.
\<close>

definition group_at :: "string \<Rightarrow> (string \<times> string) option" where
  "group_at v =
     (let body = takeWhile (\<lambda>x. x \<notin> set (CHR '')'' # quote_chars)) v
      in if body = [] then None
         else Some (body, dropWhile (\<lambda>x. x \<notin> set (CHR '')'' # quote_chars)) v))"

definition orelse :: "'a option \<Rightarrow> 'a option \<Rightarrow> 'a option" where
  "orelse a b = (case a of None \<Rightarrow> b | Some x \<Rightarrow> Some x)"

definition import_at :: "string \<Rightarrow> (string \<times> string) option" where
  "import_at s =
     (if prefix_ci ''@import'' s
      then (let r = drop 7 s;
                n = length (takeWhile is_re_space r);
                r' = drop n r;
                u = drop 4 r'
            in if n = 0 then None
               else orelse (if prefix_ci ''url('' r'
                            then orelse (if u \<noteq> [] \<and> hd u \<in> set quote_chars then group_at (tl u) else None)
                                        (group_at u)
                            else None)
                   (orelse (if r' \<noteq> [] \<and> hd r' \<in> set quote_chars then group_at (tl r') else None)
                   (orelse (group_at r')
                           (if 2 \<le> n then group_at (drop (n - 1) r) else None))))
      else None)"

text \<open>The calls of \<^verbatim>\<open>norm\<close> one after the other; the first exception ends them.\<close>

fun norm_all :: "world \<Rightarrow> string \<Rightarrow> string list \<Rightarrow> exn + string list" where
  "norm_all w base [] = Inr []"
| "norm_all w base (raw # raws) =
     (case norm_url w base raw of
        Inl e \<Rightarrow> Inl e
      | Inr u \<Rightarrow> (case norm_all w base raws of Inl e \<Rightarrow> Inl e | Inr us \<Rightarrow> Inr (u # us)))"

definition extract_urls_from_css :: "world \<Rightarrow> string \<Rightarrow> string \<Rightarrow> exn + string list" where
  "extract_urls_from_css w css_text base_url =
     (let raws1 = filter (\<lambda>raw. \<not> (raw = [] \<or> prefix ''data:'' raw))
                    (map (strip (CHR '' '' # quote_chars)) (finditer url_at 0 css_text));
          raws2 = map (strip (CHR '' '' # quote_chars)) (finditer import_at 0 css_text)
      in case norm_all w base_url (raws1 @ raws2) of
           Inl e \<Rightarrow> Inl e
         | Inr urls \<Rightarrow> Inr (fromkeys urls))"

section \<open>Hex colours (build\_palette.py)\<close>

text \<open>
  \<^verbatim>\<open>int(s, 16)\<close> on a string: white space around the literal is dropped, then come an
  optional sign, an optional prefix \<^verbatim>\<open>0x\<close> and hex digits, single underscores allowed
  between digits and after the prefix. The white space is that of the characters below
  256 which \<^verbatim>\<open>int\<close> accepts in a string of two characters, the only strings
  \<open>parse_hex\<close> passes.
\<close>

definition hex_val :: "char \<Rightarrow> nat option" where
  "hex_val c =
     map_of [(CHR ''0'', 0), (CHR ''1'', 1), (CHR ''2'', 2), (CHR ''3'', 3), (CHR ''4'', 4),
             (CHR ''5'', 5), (CHR ''6'', 6), (CHR ''7'', 7), (CHR ''8'', 8), (CHR ''9'', 9),
             (CHR ''a'', 10), (CHR ''b'', 11), (CHR ''c'', 12), (CHR ''d'', 13), (CHR ''e'', 14),
             (CHR ''f'', 15), (CHR ''A'', 10), (CHR ''B'', 11), (CHR ''C'', 12), (CHR ''D'', 13),
             (CHR ''E'', 14), (CHR ''F'', 15)] c"

definition is_int_space :: "char \<Rightarrow> bool" where
  "is_int_space c = ((of_char c :: nat) \<in> {9, 10, 11, 12, 13, 32, 133, 160})"

fun hex_digits_from :: "nat \<Rightarrow> string \<Rightarrow> nat option" where
  "hex_digits_from acc [] = Some acc"
| "hex_digits_from acc [c] =
     (case hex_val c of None \<Rightarrow> None | Some v \<Rightarrow> Some (16 * acc + v))"
| "hex_digits_from acc (c # d # ds) =
     (if c = CHR ''_''
      then (case hex_val d of None \<Rightarrow> None | Some v \<Rightarrow> hex_digits_from (16 * acc + v) ds)
      else (case hex_val c of None \<Rightarrow> None | Some v \<Rightarrow> hex_digits_from (16 * acc + v) (d # ds)))"

definition hex_digits :: "string \<Rightarrow> nat option" where
  "hex_digits s =
     (case s of
        [] \<Rightarrow> None
      | c # cs \<Rightarrow> (case hex_val c of None \<Rightarrow> None | Some v \<Rightarrow> hex_digits_from v cs))"

definition py_int16 :: "string \<Rightarrow> exn + int" where
  "py_int16 s =
     (let t = rev (dropWhile is_int_space (rev (dropWhile is_int_space s)));
          neg = prefix ''-'' t;
          r = (if prefix ''-'' t \<or> prefix ''+'' t then tl t else t);
          r1 = (if prefix ''0x'' r \<or> prefix ''0X'' r
                then (if prefix ''_'' (drop 2 r) then drop 3 r else drop 2 r)
                else r)
      in case hex_digits r1 of
           None \<Rightarrow> Inl (ValueError ''invalid literal for int() with base 16'')
         | Some n \<Rightarrow> Inr (if neg then - int n else int n))"

text \<open>The format \<^verbatim>\<open>02x\<close>: lower-case hex digits, filled with zeros to a width of two.\<close>

definition hex_digit_char :: "nat \<Rightarrow> char" where
  "hex_digit_char d = ''0123456789abcdef'' ! d"

fun hex_str :: "nat \<Rightarrow> string" where
  "hex_str n = (if n < 16 then [hex_digit_char n] else hex_str (n div 16) @ [hex_digit_char (n mod 16)])"

declare hex_str.simps [simp del]

definition fmt_02x :: "int \<Rightarrow> string" where
  "fmt_02x n =
     (if n < 0 then ''-'' @ hex_str (nat (- n))
      else (let d = hex_str (nat n) in if length d < 2 then ''0'' @ d else d))"

definition rgb_to_hex :: "int \<times> int \<times> int \<Rightarrow> string" where
  "rgb_to_hex rgb = (case rgb of (r, g, b) \<Rightarrow> ''#'' @ fmt_02x r @ fmt_02x g @ fmt_02x b)"

text \<open>The list comprehension \<^verbatim>\<open>[int(c*2,16) for c in t[:3]]\<close>: the first error ends it.\<close>

fun ints16 :: "string list \<Rightarrow> exn + int list" where
  "ints16 [] = Inr []"
| "ints16 (s # ss) =
     (case py_int16 s of
        Inl e \<Rightarrow> Inl e
      | Inr n \<Rightarrow> (case ints16 ss of Inl e \<Rightarrow> Inl e | Inr ns \<Rightarrow> Inr (n # ns)))"

definition parse_hex :: "string \<Rightarrow> exn + (int \<times> int \<times> int)" where
  "parse_hex token =
     (let t = lstrip ''#'' token
      in if length t = 3 \<or> length t = 4
         then (case ints16 (map (\<lambda>c. [c, c]) (take 3 t)) of
                 Inl e \<Rightarrow> Inl e
               | Inr [r, g, b] \<Rightarrow> Inr (r, g, b)
               | Inr _ \<Rightarrow> Inl (ValueError ''not enough values to unpack''))
         else if length t = 6 \<or> length t = 8
         then (case py_int16 (take 2 t) of
                 Inl e \<Rightarrow> Inl e
               | Inr r \<Rightarrow>
                   (case py_int16 (take 2 (drop 2 t)) of
                      Inl e \<Rightarrow> Inl e
                    | Inr g \<Rightarrow>
                        (case py_int16 (take 2 (drop 4 t)) of
                           Inl e \<Rightarrow> Inl e
                         | Inr b \<Rightarrow> Inr (r, g, b))))
         else Inl (ValueError []))"

text \<open>
  The six digits a hex token stands for: each of the first three digits doubled for the
  short forms, the first six digits for the long ones.
\<close>

definition six_digits :: "string \<Rightarrow> string" where
  "six_digits t =
     (if length t = 3 \<or> length t = 4 then concat (map (\<lambda>c. [c, c]) (take 3 t)) else take 6 t)"

definition is_hex :: "char \<Rightarrow> bool" where
  "is_hex c = (hex_val c \<noteq> None)"

section \<open>A small world for the examples\<close>

text \<open>
  A stand-in for \<^verbatim>\<open>urlparse\<close> on URLs of the shape \<^verbatim>\<open>scheme://netloc/path?query#fragment\<close>.
  As the library does, it raises \<^verbatim>\<open>ValueError\<close> when only one of the two square brackets
  occurs in the network location.
\<close>

definition simple_urlparse :: "string \<Rightarrow> exn + parse_result" where
  "simple_urlparse url =
     (let sch = takeWhile (\<lambda>c. c \<noteq> CHR '':'') url;
          rest = dropWhile (\<lambda>c. c \<noteq> CHR '':'') url
      in if prefix ''://'' rest
         then (let r = drop 3 rest;
                   nl = takeWhile (\<lambda>c. c \<notin> set ''/?#'') r;
                   r2 = dropWhile (\<lambda>c. c \<notin> set ''/?#'') r;
                   pth = takeWhile (\<lambda>c. c \<notin> set ''?#'') r2;
                   r3 = dropWhile (\<lambda>c. c \<notin> set ''?#'') r2;
                   q = (if prefix ''?'' r3 then takeWhile (\<lambda>c. c \<noteq> CHR ''#'') (tl r3) else [])
               in if (CHR ''['' \<in> set nl) \<noteq> (CHR '']'' \<in> set nl)
                  then Inl (ValueError ''Invalid IPv6 URL'')
                  else Inr \<lparr>scheme = map to_lower sch, netloc = nl, path = pth, query = q\<rparr>)
         else Inr \<lparr>scheme = [], netloc = [], path = takeWhile (\<lambda>c. c \<notin> set ''?#'') url, query = []\<rparr>)"

text \<open>
  A site of four pages: the start page links to three pages of its own origin, to a
  mail address and to another site. Every link is absolute, every download succeeds.
\<close>

definition example_world :: world where
  "example_world =
     \<lparr>urlparse = simple_urlparse,
      urljoin = (\<lambda>base href. Inr href),
      py_hash = (\<lambda>q. int (length q)),
      requests_get = (\<lambda>url. Inr \<lparr>status_code = 200, content_type_header = Some ''image/png'',
                                   content = ''PNG''\<rparr>),
      save_body = (\<lambda>local r. Inr (int (length (content r)))),
      capture = (\<lambda>url. if url = ''http://site.test/''
                         then Inr [''http://site.test/a'', ''mailto:team@site.test'',
                                   ''http://elsewhere.test/'', ''http://site.test/b'',
                                   ''http://site.test/a'', ''http://site.test/c'']
                         else Inr [''http://site.test/'']),
      export_csv = (\<lambda>url n. Inr ())\<rparr>"

text \<open>The same world in another process: the string hash is salted differently.\<close>

definition example_world_reseeded :: world where
  "example_world_reseeded = example_world\<lparr>py_hash := (\<lambda>q. 7 * int (length q) + 1)\<rparr>"

section \<open>Properties of chunk\_text\<close>

subsection \<open>The loop, unrolled\<close>

lemma ceil_div_bounds:
  assumes "1 \<le> S"
  shows "int L \<le> int (ceil_div L S) * S" and "int (ceil_div L S) * S - S < int L"
proof -
  define z where "z = (int L + S - 1) div S"
  define r where "r = (int L + S - 1) mod S"
  have dm: "int L + S - 1 = S * z + r"
    by (simp add: z_def r_def)
  have r: "0 \<le> r" "r < S"
    using assms by (simp_all add: r_def)
  have up: "int L \<le> S * z" using dm r by linarith
  have lo: "S * z - S < int L" using dm r by linarith
  have Spos: "0 < real_of_int S" using assms by simp
  have "real_of_int (int L) \<le> real_of_int (S * z)" using up by (simp only: of_int_le_iff)
  then have a: "real L / real_of_int S \<le> real_of_int z"
    using Spos by (simp add: pos_divide_le_eq mult.commute)
  have "real_of_int (S * z - S) < real_of_int (int L)" using lo by (simp only: of_int_less_iff)
  then have "(real_of_int z - 1) * real_of_int S < real L"
    by (simp add: algebra_simps)
  then have b: "real_of_int z - 1 < real L / real_of_int S"
    using Spos by (simp only: pos_less_divide_eq)
  have c: "\<lceil>real L / real_of_int S\<rceil> = z"
    by (rule ceiling_unique [OF b a])
  have "0 \<le> z"
  proof (rule ccontr)
    assume "\<not> 0 \<le> z"
    then have "z \<le> -1" by simp
    then have "S * z \<le> S * (-1)" using assms by (intro mult_left_mono) simp_all
    with up assms show False by simp
  qed
  with c have e: "int (ceil_div L S) = z" by (simp add: ceil_div_def)
  show "int L \<le> int (ceil_div L S) * S" using up e by (simp add: mult.commute)
  show "int (ceil_div L S) * S - S < int L" using lo e by (simp add: mult.commute)
qed

lemma chunk_loop_unroll:
  assumes "1 \<le> S" and "n = ceil_div (length big) S"
  shows "k \<le> n \<Longrightarrow> length cs = k \<Longrightarrow>
         chunk_loop big S (int k * S) cs = Some (cs @ map (chunk_at big S) [k..<n])"
proof (induction "n - k" arbitrary: k cs)
  case 0
  then have kn: "k = n" by simp
  have "\<not> int k * S < int (length big)"
    using ceil_div_bounds(1) [OF assms(1), of "length big"] assms(2) kn by simp
  then show ?case
    using kn by (subst chunk_loop.simps) simp
next
  case (Suc d)
  then have lt: "k < n" and d: "d = n - Suc k" by simp_all
  have "int (Suc k) \<le> int n" using lt by simp
  then have "int (Suc k) * S \<le> int n * S"
    using assms(1) by (intro mult_right_mono) simp_all
  then have "int k * S + S \<le> int n * S" by (simp add: algebra_simps)
  then have cond: "int k * S < int (length big)"
    using ceil_div_bounds(2) [OF assms(1), of "length big"] assms(2) by simp
  have nxt: "int k * S + S = int (Suc k) * S" by (simp add: algebra_simps)
  have step: "chunk_loop big S (int k * S) cs =
              chunk_loop big S (int (Suc k) * S) (cs @ [chunk_at big S k])"
    using cond Suc.prems(2) by (subst chunk_loop.simps) (simp add: chunk_at_def nxt)
  have "chunk_loop big S (int (Suc k) * S) (cs @ [chunk_at big S k]) =
        Some ((cs @ [chunk_at big S k]) @ map (chunk_at big S) [Suc k..<n])"
    using Suc.prems lt by (intro Suc.hyps(1) d) simp_all
  then show ?case
    using step lt by (simp add: upt_conv_Cons)
qed

lemma chunk_text_unrolled:
  assumes "1 \<le> S"
  shows "chunk_text big S = Some (map (chunk_at big S) [0..<ceil_div (length big) S])"
  using chunk_loop_unroll [OF assms refl, of 0 big "[]"] by (simp add: chunk_text_def)

lemma chunk_loop_Some_progress:
  assumes "chunk_loop big S i cs = Some y"
  shows "\<not> (S \<le> 0 \<and> i < int (length big))"
proof (rule chunk_loop.raw_induct
    [where P = "\<lambda>big S i cs y. \<not> (S \<le> 0 \<and> i < int (length big))", OF _ assms])
  fix f :: "string \<Rightarrow> int \<Rightarrow> int \<Rightarrow> chunk list \<Rightarrow> chunk list option"
  fix b :: string and S' i' :: int and cs' y' :: "chunk list"
  assume IH: "\<And>b S i cs y. f b S i cs = Some y \<Longrightarrow> \<not> (S \<le> 0 \<and> i < int (length b))"
  assume eq: "(if i' < int (length b)
      then f b S' (i' + S')
             (cs' @ [\<lparr>index = length cs',
                         ctext = py_slice b (max 0 (i' - CHUNK_OVERLAP)) (i' + S')\<rparr>])
      else Some cs') = Some y'"
  show "\<not> (S' \<le> 0 \<and> i' < int (length b))"
  proof
    assume a: "S' \<le> 0 \<and> i' < int (length b)"
    with eq have "f b S' (i' + S')
             (cs' @ [\<lparr>index = length cs',
                         ctext = py_slice b (max 0 (i' - CHUNK_OVERLAP)) (i' + S')\<rparr>]) = Some y'"
      by simp
    from IH [OF this] a show False by simp
  qed
qed

lemma chunk_text_diverges:
  assumes "S \<le> 0" and "big \<noteq> []"
  shows "chunk_text big S = None"
proof (cases "chunk_text big S")
  case None
  then show ?thesis .
next
  case (Some y)
  then have "\<not> (S \<le> 0 \<and> 0 < int (length big))"
    unfolding chunk_text_def by (rule chunk_loop_Some_progress)
  with assms show ?thesis by simp
qed

lemma py_slice_nonneg:
  assumes "0 \<le> a" and "0 \<le> h"
  shows "py_slice xs a h = take (nat h - nat a) (drop (nat a) xs)"
proof -
  have "take (nat (min h (int (length xs)) - min a (int (length xs)))) (drop (nat (min a (int (length xs)))) xs)
      = take (nat h - nat a) (drop (nat a) xs)"
  proof (cases "a \<le> int (length xs)")
    case True
    then have m: "min a (int (length xs)) = a" by simp
    show ?thesis
    proof (cases "h \<le> int (length xs)")
      case True
      then show ?thesis using m assms by (simp add: nat_diff_distrib')
    next
      case False
      then have "length (drop (nat a) xs) \<le> nat h - nat a"
        using assms True by simp
      moreover have "length (drop (nat a) xs) \<le> nat (min h (int (length xs)) - a)"
        using False assms True by simp
      ultimately show ?thesis using m by simp
    qed
  next
    case False
    then show ?thesis using assms by simp
  qed
  then show ?thesis
    using assms by (simp add: py_slice_def Let_def)
qed

lemma chunk_start_nat:
  assumes "1 \<le> S"
  shows "nat (max 0 (int k * S - CHUNK_OVERLAP)) = k * nat S - 800"
proof -
  define s where "s = nat S"
  have s: "S = int s" using assms by (simp add: s_def)
  have "nat (max 0 (int k * S - CHUNK_OVERLAP)) = k * s - 800"
    by (simp add: s CHUNK_OVERLAP_def nat_diff_distrib' flip: of_nat_mult)
  then show ?thesis by (simp add: s)
qed

lemma chunk_at_nat:
  assumes "1 \<le> S"
  shows "ctext (chunk_at big S k) =
         take (Suc k * nat S - (k * nat S - 800)) (drop (k * nat S - 800) big)"
proof -
  define s where "s = nat S"
  have s: "S = int s" using assms by (simp add: s_def)
  have a: "nat (max 0 (int k * S - CHUNK_OVERLAP)) = k * s - 800"
    by (simp add: s CHUNK_OVERLAP_def nat_diff_distrib' flip: of_nat_mult)
  have h: "nat (int k * S + S) = Suc k * s"
    by (simp add: s nat_add_distrib flip: of_nat_mult of_nat_add)
  have "0 \<le> int k * S + S" using assms by (simp add: s)
  then have "ctext (chunk_at big S k) =
      take (nat (int k * S + S) - nat (max 0 (int k * S - CHUNK_OVERLAP)))
           (drop (nat (max 0 (int k * S - CHUNK_OVERLAP))) big)"
    by (simp add: chunk_at_def py_slice_nonneg)
  then show ?thesis by (simp only: a h) (simp add: s)
qed


lemma ceil_div_nat:
  assumes "1 \<le> S"
  shows "L \<le> ceil_div L S * nat S" and "ceil_div L S * nat S < L + nat S"
proof -
  have S: "S = int (nat S)" using assms by simp
  have "int L \<le> int (ceil_div L S * nat S)"
    using ceil_div_bounds(1) [OF assms, of L] assms by simp
  then show "L \<le> ceil_div L S * nat S" by (simp only: of_nat_le_iff)
  have "int (ceil_div L S * nat S) < int (L + nat S)"
    using ceil_div_bounds(2) [OF assms, of L] assms by simp
  then show "ceil_div L S * nat S < L + nat S" by (simp only: of_nat_less_iff)
qed

lemma chunk_in_range:
  assumes "1 \<le> S" and "i < ceil_div L S"
  shows "i * nat S < L"
proof -
  have "Suc i * nat S \<le> ceil_div L S * nat S"
    using assms(2) by (intro mult_le_mono1) simp
  then show ?thesis
    using ceil_div_nat(2) [OF assms(1), of L] by simp
qed

text \<open>
  Claim C4, as amended. For every chunk size \<open>S \<ge> 1\<close> and every text of length \<open>L\<close>,
  \<open>chunk_text\<close> returns exactly \<open>\<lceil>L / S\<rceil>\<close> chunks, numbered from 0, and chunk \<open>i\<close> is
  the slice of the text from offset \<open>max 0 (i * S - 800)\<close> to \<open>(i + 1) * S\<close>: it starts 800
  characters before its boundary \<open>i * S\<close> where the text has that many, and at the
  beginning of the text otherwise.
\<close>

theorem chunk_text_count_and_overlap:
  assumes "1 \<le> S"
  shows "\<exists>cs. chunk_text big S = Some cs \<and> length cs = ceil_div (length big) S \<and>
           (\<forall>i<length cs. index (cs ! i) = i \<and>
              ctext (cs ! i) = py_slice big (max 0 (int i * S - CHUNK_OVERLAP)) (int i * S + S) \<and>
              starts_at big (max 0 (int i * S - CHUNK_OVERLAP)) (ctext (cs ! i)))"
proof -
  let ?n = "ceil_div (length big) S"
  let ?cs = "map (chunk_at big S) [0..<?n]"
  have "starts_at big (max 0 (int i * S - CHUNK_OVERLAP)) (ctext (chunk_at big S i))"
    if "i < ?n" for i
  proof -
    have lt: "i * nat S < length big"
      using chunk_in_range [OF assms that] .
    have "int (i * nat S) = int i * S" using assms by simp
    then have "int i * S < int (length big)" using lt by linarith
    then have b: "max 0 (int i * S - CHUNK_OVERLAP) \<le> int (length big)"
      by (simp add: CHUNK_OVERLAP_def)
    have e: "nat (max 0 (int i * S - CHUNK_OVERLAP)) = i * nat S - 800"
      using assms by (rule chunk_start_nat)
    show ?thesis
      unfolding starts_at_def chunk_at_nat [OF assms] e using b by (simp add: take_is_prefix)
  qed
  then have props: "\<forall>i<length ?cs. index (?cs ! i) = i \<and>
              ctext (?cs ! i) = py_slice big (max 0 (int i * S - CHUNK_OVERLAP)) (int i * S + S) \<and>
              starts_at big (max 0 (int i * S - CHUNK_OVERLAP)) (ctext (?cs ! i))"
    by (simp add: chunk_at_def)
  show ?thesis
  proof (intro exI conjI)
    show "chunk_text big S = Some ?cs"
      by (rule chunk_text_unrolled [OF assms])
    show "length ?cs = ?n" by simp
    show "\<forall>i<length ?cs. index (?cs ! i) = i \<and>
              ctext (?cs ! i) = py_slice big (max 0 (int i * S - CHUNK_OVERLAP)) (int i * S + S) \<and>
              starts_at big (max 0 (int i * S - CHUNK_OVERLAP)) (ctext (?cs ! i))"
      by (rule props)
  qed
qed

theorem chunk_text_count_and_overlap_witness:
  "(1::int) \<le> 3 \<and> length (the (chunk_text ''abcdefg'' 3)) = 3 \<and> ceil_div (length ''abcdefg'') 3 = 3"
  using chunk_text_count_and_overlap [of 3 "''abcdefg''"]
  by (simp add: chunk_text_def chunk_loop.simps)

text \<open>
  The claim as the specification states it fails where \<open>i * S < 800\<close>: with chunk size 1,
  chunk 1 of \<open>''abc''\<close> is \<open>''ab''\<close>, read from offset 0 and not from offset \<open>1 - 800\<close>.
\<close>

theorem chunk_start_counterexample:
  "chunk_text ''abc'' 1 = Some [\<lparr>index = 0, ctext = ''a''\<rparr>, \<lparr>index = 1, ctext = ''ab''\<rparr>,
                                \<lparr>index = 2, ctext = ''abc''\<rparr>] \<and>
   \<not> starts_at ''abc'' (1 * 1 - CHUNK_OVERLAP) ''ab''"
  by (simp add: chunk_text_def chunk_loop.simps py_slice_def CHUNK_OVERLAP_def starts_at_def)

subsection \<open>Termination, size of the chunks, coverage\<close>

lemma cover_arith:
  fixes p s j L :: nat
  assumes "p \<le> j" and "j < p + s" and "j < L"
  shows "j < (p - 800) + min (L - (p - 800)) ((p + s) - (p - 800))"
proof -
  define a where "a = p - 800"
  have a: "a \<le> p" by (simp add: a_def)
  have 1: "a + (L - a) = L" using a assms by simp
  have 2: "a + ((p + s) - a) = p + s" using a by simp
  have "j < min (a + (L - a)) (a + ((p + s) - a))"
    unfolding 1 2 using assms by simp
  then show ?thesis
    unfolding a_def by (simp only: min_add_distrib_right)
qed


lemma take_length_take: "take (length (take m xs)) xs = take m xs"
  by (cases "m \<le> length xs") (simp_all add: min_def)

lemma chunk_at_span:
  assumes "1 \<le> S"
  shows "ctext (chunk_at big S k) =
         take ((k * nat S + nat S) - (k * nat S - 800)) (drop (k * nat S - 800) big)"
proof -
  have "Suc k * nat S = k * nat S + nat S" by simp
  then show ?thesis
    using chunk_at_nat [OF assms, of big k] by (simp only:)
qed

lemma chunk_at_cover:
  assumes "1 \<le> S" and "j < length big"
  shows "j div nat S < ceil_div (length big) S"
    and "j div nat S * nat S - 800 \<le> j"
    and "j < (j div nat S * nat S - 800) + length (ctext (chunk_at big S (j div nat S)))"
proof -
  define s where "s = nat S"
  define i where "i = j div s"
  define p where "p = i * s"
  have s: "0 < s" using assms(1) by (simp add: s_def)
  have lo: "p \<le> j" by (simp add: p_def i_def)
  have "j < Suc (j div s) * s"
    using s by (rule dividend_less_div_times [THEN less_le_trans]) simp
  then have hi: "j < p + s" by (simp add: p_def i_def add.commute)
  have "i < ceil_div (length big) S"
  proof (rule ccontr)
    assume "\<not> i < ceil_div (length big) S"
    then have "ceil_div (length big) S \<le> i" by simp
    then have A: "ceil_div (length big) S * s \<le> p"
      unfolding p_def by (rule mult_le_mono1)
    have B: "length big \<le> ceil_div (length big) S * s"
      unfolding s_def by (rule ceil_div_nat(1) [OF assms(1)])
    from A B lo assms(2) show False by linarith
  qed
  then show "j div nat S < ceil_div (length big) S" by (simp add: i_def s_def)
  have "p - 800 \<le> j" using lo by simp
  then show "j div nat S * nat S - 800 \<le> j" by (simp add: p_def i_def s_def)
  have len: "length (ctext (chunk_at big S i)) =
        min (length big - (p - 800)) ((p + s) - (p - 800))"
    unfolding chunk_at_span [OF assms(1)] p_def s_def by (simp add: min.commute)
  have "j < (p - 800) + length (ctext (chunk_at big S i))"
    unfolding len using lo hi assms(2) by (rule cover_arith)
  then show "j < (j div nat S * nat S - 800) + length (ctext (chunk_at big S (j div nat S)))"
    by (simp add: p_def i_def s_def)
qed


lemma span_arith:
  fixes p s :: nat
  shows "(p + s) - (p - 800) \<le> s + 800"
  by simp

lemma chunk_at_length:
  assumes "1 \<le> S"
  shows "int (length (ctext (chunk_at big S k))) \<le> S + CHUNK_OVERLAP"
    and "int (length (ctext (chunk_at big S 0))) \<le> S"
proof -
  have "length (ctext (chunk_at big S k)) \<le> (k * nat S + nat S) - (k * nat S - 800)"
    unfolding chunk_at_span [OF assms] by simp
  also have "\<dots> \<le> nat S + 800" by (rule span_arith)
  finally have "int (length (ctext (chunk_at big S k))) \<le> int (nat S + 800)"
    by (simp only: of_nat_le_iff)
  then show "int (length (ctext (chunk_at big S k))) \<le> S + CHUNK_OVERLAP"
    using assms by (simp add: CHUNK_OVERLAP_def)
  have "length (ctext (chunk_at big S 0)) \<le> nat S"
    unfolding chunk_at_span [OF assms] by simp
  then show "int (length (ctext (chunk_at big S 0))) \<le> S"
    using assms by linarith
qed

lemma chunk_at_substring:
  assumes "1 \<le> S"
  shows "ctext (chunk_at big S k) =
         take (length (ctext (chunk_at big S k))) (drop (k * nat S - 800) big)"
  unfolding chunk_at_span [OF assms] by (rule take_length_take [symmetric])

text \<open>
  Claim C10. With \<open>chunk_size \<ge> 1\<close> the loop of \<open>chunk_text\<close> returns; every chunk it
  returns has at most \<open>chunk_size + 800\<close> characters, the first one at most
  \<open>chunk_size\<close>; and every position \<open>j\<close> of the input lies inside a chunk, which is the
  substring of the input that starts at some offset \<open>a \<le> j\<close> and reaches beyond \<open>j\<close>.
\<close>

theorem chunk_text_terminates_bounded_covering:
  assumes "1 \<le> S"
  shows "\<exists>cs. chunk_text big S = Some cs \<and>
           (\<forall>c\<in>set cs. int (length (ctext c)) \<le> S + CHUNK_OVERLAP) \<and>
           (cs \<noteq> [] \<longrightarrow> int (length (ctext (cs ! 0))) \<le> S) \<and>
           (\<forall>j<length big. \<exists>i<length cs. \<exists>a\<le>j.
               j < a + length (ctext (cs ! i)) \<and>
               ctext (cs ! i) = take (length (ctext (cs ! i))) (drop a big))"
proof -
  let ?n = "ceil_div (length big) S"
  let ?cs = "map (chunk_at big S) [0..<?n]"
  have bound: "\<forall>c\<in>set ?cs. int (length (ctext c)) \<le> S + CHUNK_OVERLAP"
    using chunk_at_length(1) [OF assms] by auto
  have first: "?cs \<noteq> [] \<longrightarrow> int (length (ctext (?cs ! 0))) \<le> S"
    using chunk_at_length(2) [OF assms, of big] by (simp add: upt_conv_Cons)
  have cover: "\<exists>i<length ?cs. \<exists>a\<le>j.
               j < a + length (ctext (?cs ! i)) \<and>
               ctext (?cs ! i) = take (length (ctext (?cs ! i))) (drop a big)"
    if j: "j < length big" for j
  proof (intro exI conjI)
    let ?i = "j div nat S"
    show i: "?i < length ?cs"
      using chunk_at_cover(1) [OF assms j] by simp
    have nth: "?cs ! ?i = chunk_at big S ?i"
      using chunk_at_cover(1) [OF assms j] by simp
    show "?i * nat S - 800 \<le> j"
      by (rule chunk_at_cover(2) [OF assms j])
    show "j < (?i * nat S - 800) + length (ctext (?cs ! ?i))"
      unfolding nth by (rule chunk_at_cover(3) [OF assms j])
    show "ctext (?cs ! ?i) = take (length (ctext (?cs ! ?i))) (drop (?i * nat S - 800) big)"
      unfolding nth by (rule chunk_at_substring [OF assms])
  qed
  show ?thesis
  proof (intro exI conjI)
    show "chunk_text big S = Some ?cs"
      by (rule chunk_text_unrolled [OF assms])
    show "\<forall>c\<in>set ?cs. int (length (ctext c)) \<le> S + CHUNK_OVERLAP"
      by (rule bound)
    show "?cs \<noteq> [] \<longrightarrow> int (length (ctext (?cs ! 0))) \<le> S"
      by (rule first)
    show "\<forall>j<length big. \<exists>i<length ?cs. \<exists>a\<le>j.
               j < a + length (ctext (?cs ! i)) \<and>
               ctext (?cs ! i) = take (length (ctext (?cs ! i))) (drop a big)"
      using cover by blast
  qed
qed

theorem chunk_text_terminates_bounded_covering_witness:
  "(1::int) \<le> 2 \<and> chunk_text ''hello'' 2 \<noteq> None \<and>
   list_all (\<lambda>c. int (length (ctext c)) \<le> 2 + CHUNK_OVERLAP) (the (chunk_text ''hello'' 2))"
proof -
  obtain cs where cs: "chunk_text ''hello'' 2 = Some cs"
      and b: "\<forall>c\<in>set cs. int (length (ctext c)) \<le> 2 + CHUNK_OVERLAP"
    using chunk_text_terminates_bounded_covering [of 2 "''hello''"] by auto
  show ?thesis using cs b by (simp add: list_all_iff)
qed


section \<open>Properties of the asset pipeline\<close>

subsection \<open>Dictionaries keep the first occurrence of a key\<close>

lemma set_fromkeys_into: "set (fromkeys_into ks xs) = set ks \<union> set xs"
  by (induction xs arbitrary: ks) auto

lemma distinct_fromkeys_into: "distinct ks \<Longrightarrow> distinct (fromkeys_into ks xs)"
  by (induction xs arbitrary: ks) auto

lemma fromkeys_into_append:
  "fromkeys_into ks (xs @ ys) = fromkeys_into (fromkeys_into ks xs) ys"
  by (induction xs arbitrary: ks) auto

lemma fromkeys_into_distinct:
  "distinct zs \<Longrightarrow> fromkeys_into ks zs = ks @ filter (\<lambda>z. z \<notin> set ks) zs"
proof (induction zs arbitrary: ks)
  case Nil
  then show ?case by simp
next
  case (Cons z zs)
  have "filter (\<lambda>y. y \<notin> set (ks @ [z])) zs = filter (\<lambda>y. y \<notin> set ks) zs"
    using Cons.prems by (intro filter_cong) auto
  then show ?case using Cons by simp
qed

lemma filter_fromkeys_into:
  "filter P (fromkeys_into ks xs) = fromkeys_into (filter P ks) (filter P xs)"
  by (induction xs arbitrary: ks) auto

lemma fromkeys_into_split:
  "fromkeys_into ks xs = ks @ fromkeys (filter (\<lambda>x. x \<notin> set ks) xs)"
proof (induction "length xs" arbitrary: xs ks rule: less_induct)
  case less
  show ?case
  proof (cases xs)
    case Nil
    then show ?thesis by (simp add: fromkeys_def)
  next
    case (Cons x xs')
    show ?thesis
    proof (cases "x \<in> set ks")
      case True
      have "fromkeys_into ks xs' = ks @ fromkeys (filter (\<lambda>x. x \<notin> set ks) xs')"
        using Cons by (intro less) simp
      then show ?thesis using True Cons by simp
    next
      case False
      let ?F = "filter (\<lambda>y. y \<notin> set ks) xs'"
      have 1: "fromkeys_into (ks @ [x]) xs' =
               (ks @ [x]) @ fromkeys (filter (\<lambda>y. y \<notin> set (ks @ [x])) xs')"
        using Cons by (intro less) simp
      have "length ?F < length xs"
        using Cons by (simp add: le_imp_less_Suc)
      then have 2: "fromkeys_into [x] ?F = [x] @ fromkeys (filter (\<lambda>y. y \<notin> set [x]) ?F)"
        by (rule less)
      have 3: "filter (\<lambda>y. y \<notin> set [x]) ?F = filter (\<lambda>y. y \<notin> set (ks @ [x])) xs'"
        by (simp add: conj_commute)
      have "fromkeys (x # ?F) = fromkeys_into [x] ?F"
        by (simp add: fromkeys_def)
      then show ?thesis
        using False Cons 1 2 3 by simp
    qed
  qed
qed

lemma fromkeys_Cons: "fromkeys (x # xs) = x # fromkeys (filter (\<lambda>y. y \<noteq> x) xs)"
  using fromkeys_into_split [of "[x]" xs] by (simp add: fromkeys_def)

lemma distinct_fromkeys: "distinct (fromkeys xs)"
  by (simp add: fromkeys_def distinct_fromkeys_into)

lemma set_fromkeys: "set (fromkeys xs) = set xs"
  by (simp add: fromkeys_def set_fromkeys_into)

lemma fromkeys_idem: "fromkeys (fromkeys xs) = fromkeys xs"
  using fromkeys_into_distinct [OF distinct_fromkeys, of "[]" xs] by (simp add: fromkeys_def)

lemma fromkeys_append_fromkeys:
  "fromkeys (fromkeys xs @ fromkeys ys) = fromkeys (xs @ ys)"
proof -
  have "fromkeys (fromkeys xs @ fromkeys ys) = fromkeys_into (fromkeys (fromkeys xs)) (fromkeys ys)"
    by (simp add: fromkeys_def fromkeys_into_append)
  also have "\<dots> = fromkeys xs @ filter (\<lambda>z. z \<notin> set xs) (fromkeys ys)"
    by (simp add: fromkeys_idem fromkeys_into_distinct [OF distinct_fromkeys] set_fromkeys)
  also have "filter (\<lambda>z. z \<notin> set xs) (fromkeys ys) = fromkeys (filter (\<lambda>z. z \<notin> set xs) ys)"
    by (simp add: fromkeys_def filter_fromkeys_into)
  also have "fromkeys xs @ fromkeys (filter (\<lambda>z. z \<notin> set xs) ys) = fromkeys_into (fromkeys xs) ys"
    using fromkeys_into_split [of "fromkeys xs" ys] by (simp add: set_fromkeys)
  also have "\<dots> = fromkeys (xs @ ys)"
    by (simp add: fromkeys_def fromkeys_into_append)
  finally show ?thesis .
qed

subsection \<open>The list of assets handed to the downloader\<close>

lemma all_assets_take: "all_assets d c = take 250 (fromkeys (d @ c))"
  by (simp add: all_assets_def Let_def)

lemma requested_prefix: "prefix (requested w as) as"
  by (induction as) (auto split: sum.splits)

text \<open>
  Claim C6. The loop that downloads the assets of a page runs over the first 250
  entries of the duplicate-free list of the assets found in the DOM followed by those
  found in the style sheets: the list has no duplicates and at most 250 entries, all of
  them from the two sources, every one of them when there are no more than 250, and
  \<open>download_asset\<close> is called on an initial part of exactly this list.
\<close>

theorem download_assets_dedup_capped:
  "download_assets w dom_assets assets_from_css =
     download_loop w (take 250 (fromkeys (dom_assets @ assets_from_css))) [] \<and>
   all_assets (fromkeys dom_assets) (fromkeys assets_from_css) =
     take 250 (fromkeys (dom_assets @ assets_from_css)) \<and>
   distinct (take 250 (fromkeys (dom_assets @ assets_from_css))) \<and>
   length (take 250 (fromkeys (dom_assets @ assets_from_css))) \<le> 250 \<and>
   set (take 250 (fromkeys (dom_assets @ assets_from_css))) \<subseteq> set dom_assets \<union> set assets_from_css \<and>
   (length (fromkeys (dom_assets @ assets_from_css)) \<le> 250 \<longrightarrow>
      set (take 250 (fromkeys (dom_assets @ assets_from_css))) = set dom_assets \<union> set assets_from_css) \<and>
   prefix (requested w (take 250 (fromkeys (dom_assets @ assets_from_css))))
          (take 250 (fromkeys (dom_assets @ assets_from_css)))"
proof -
  let ?a = "take 250 (fromkeys (dom_assets @ assets_from_css))"
  have e: "all_assets (fromkeys dom_assets) (fromkeys assets_from_css) = ?a"
    by (simp only: all_assets_take fromkeys_append_fromkeys)
  have s: "set ?a \<subseteq> set dom_assets \<union> set assets_from_css"
    using set_take_subset [of 250 "fromkeys (dom_assets @ assets_from_css)"]
    by (simp add: set_fromkeys)
  have f: "length (fromkeys (dom_assets @ assets_from_css)) \<le> 250 \<longrightarrow>
      set ?a = set dom_assets \<union> set assets_from_css"
    by (simp add: set_fromkeys)
  show ?thesis
    using e s f by (simp add: download_assets_def distinct_fromkeys requested_prefix)
qed

theorem download_assets_dedup_capped_witness:
  "all_assets (fromkeys [''a.png'', ''b.css'', ''a.png'']) (fromkeys [''b.css'', ''c.woff'']) =
     [''a.png'', ''b.css'', ''c.woff''] \<and>
   set [''a.png'', ''b.css'', ''c.woff''] = set [''a.png'', ''b.css'', ''a.png''] \<union> set [''b.css'', ''c.woff'']"
  using download_assets_dedup_capped [of w "[''a.png'', ''b.css'', ''a.png'']" "[''b.css'', ''c.woff'']"]
  by (simp add: fromkeys_def)

section \<open>Properties of the crawl\<close>

subsection \<open>An invariant rule for the loop\<close>

declare crawl_loop.simps [simp del]

lemma crawl_loop_invariant_rule:
  assumes init: "I s"
    and skip: "\<And>s url rest. I s \<Longrightarrow> queue s = url # rest \<Longrightarrow> I (s\<lparr>queue := rest\<rparr>)"
    and visit: "\<And>s url rest. I s \<Longrightarrow> queue s = url # rest \<Longrightarrow> url \<notin> visited s \<Longrightarrow>
                  pg s < max_pages \<Longrightarrow>
                  (same_origin \<longrightarrow> (\<exists>p. urlparse w url = Inr p \<and> netloc p = origin)) \<Longrightarrow>
                  I (s\<lparr>queue := rest, visited := insert url (visited s), pg := pg s + 1,
                       captured := captured s @ [url]\<rparr>)"
    and disc: "\<And>s url hrefs e q. I s \<Longrightarrow> url \<in> visited s \<Longrightarrow>
                  discover w same_origin start_url (visited s) url hrefs (queue s) = (e, q) \<Longrightarrow>
                  I (s\<lparr>queue := q\<rparr>)"
  shows "I (final_state (crawl_loop w start_url max_pages same_origin origin s)) \<and> loop_left max_pages (crawl_loop w start_url max_pages same_origin origin s)"
  using init skip visit disc
proof (induction w start_url max_pages same_origin origin s rule: crawl_loop.induct)
  case (1 w start_url max_pages same_origin origin s)
  note IH = "1.IH" and I = "1.prems"(1) and skip = "1.prems"(2) and visit = "1.prems"(3)
    and disc = "1.prems"(4)
  show ?case
  proof (cases "queue s \<noteq> [] \<and> pg s < max_pages")
    case False
    then have "crawl_loop w start_url max_pages same_origin origin s = Finished s"
      by (subst crawl_loop.simps) (simp only: if_False)
    then show ?thesis using I False by (auto simp: loop_left_def)
  next
    case True
    note run = True
    from run obtain url rest where q: "queue s = url # rest"
      by (cases "queue s") auto
    let ?s1 = "s\<lparr>queue := tl (queue s)\<rparr>"
    let ?chk = "if same_origin
                then (case urlparse w url of Inl e \<Rightarrow> Inl e | Inr p \<Rightarrow> Inr (netloc p \<noteq> origin))
                else Inr False"
    let ?s2 = "?s1\<lparr>visited := insert url (visited ?s1), pg := pg ?s1 + 1,
                    captured := captured ?s1 @ [url]\<rparr>"
    have hd: "hd (queue s) = url" using q by simp
    have s1: "?s1 = s\<lparr>queue := rest\<rparr>" using q by simp
    have I1: "I ?s1" unfolding s1 using I q by (rule skip)
    show ?thesis
    proof (cases "url \<in> visited ?s1")
      case A: True
      have "crawl_loop w start_url max_pages same_origin origin s =
            crawl_loop w start_url max_pages same_origin origin ?s1"
        using run A hd by (subst crawl_loop.simps) (simp add: Let_def)
      moreover have "I (final_state (crawl_loop w start_url max_pages same_origin origin ?s1)) \<and> loop_left max_pages (crawl_loop w start_url max_pages same_origin origin ?s1)"
        by (rule IH(1) [OF run hd [symmetric] refl A I1 skip visit disc])
      ultimately show ?thesis by simp
    next
      case B: False
      show ?thesis
      proof (cases ?chk)
        case (Inl e)
        have "crawl_loop w start_url max_pages same_origin origin s = Raised e ?s1"
          using run B hd Inl by (subst crawl_loop.simps) (simp add: Let_def)
        then show ?thesis using I1 by (simp add: loop_left_def)
      next
        case (Inr b)
        show ?thesis
        proof (cases b)
          case True
          then have bT: "b = True" by simp
          have "crawl_loop w start_url max_pages same_origin origin s =
                crawl_loop w start_url max_pages same_origin origin ?s1"
            using run B hd Inr bT by (subst crawl_loop.simps) (simp add: Let_def)
          moreover have "I (final_state (crawl_loop w start_url max_pages same_origin origin ?s1)) \<and> loop_left max_pages (crawl_loop w start_url max_pages same_origin origin ?s1)"
            by (rule IH(2) [OF run hd [symmetric] refl B Inr bT I1 skip visit disc])
          ultimately show ?thesis by simp
        next
          case False
          then have bF: "b = False" by simp
          have so: "same_origin \<longrightarrow> (\<exists>p. urlparse w url = Inr p \<and> netloc p = origin)"
            using Inr bF by (auto split: if_splits sum.splits)
          have nv: "url \<notin> visited s" using B by simp
          have lt: "pg s < max_pages" using run by simp
          have "I (s\<lparr>queue := rest, visited := insert url (visited s), pg := pg s + 1,
                     captured := captured s @ [url]\<rparr>)"
            by (rule visit [OF I q nv lt so])
          then have I2: "I ?s2" using q by simp
          show ?thesis
          proof (cases "capture w url")
            case cI: (Inl e)
            have "crawl_loop w start_url max_pages same_origin origin s = Raised e ?s2"
              using run B hd Inr bF cI by (subst crawl_loop.simps) (simp add: Let_def)
            then show ?thesis using I2 by (simp add: loop_left_def)
          next
            case cR: (Inr hrefs)
            obtain eo q' where d: "discover w same_origin start_url (visited ?s2) url hrefs (queue ?s2) = (eo, q')"
              by (cases "discover w same_origin start_url (visited ?s2) url hrefs (queue ?s2)")
            have inv: "url \<in> visited ?s2" by simp
            have I3: "I (?s2\<lparr>queue := q'\<rparr>)"
              by (rule disc [OF I2 inv d])
            show ?thesis
            proof (cases eo)
              case (Some e)
              have "crawl_loop w start_url max_pages same_origin origin s = Raised e (?s2\<lparr>queue := q'\<rparr>)"
                using run B hd Inr bF cR d Some by (subst crawl_loop.simps) (simp add: Let_def)
              then show ?thesis using I3 by (simp add: loop_left_def)
            next
              case None
              show ?thesis
              proof (cases "export_csv w url (pg ?s2)")
                case xI: (Inl e)
                have "crawl_loop w start_url max_pages same_origin origin s = Raised e (?s2\<lparr>queue := q'\<rparr>)"
                  using run B hd Inr bF cR d None xI by (subst crawl_loop.simps) (simp add: Let_def)
                then show ?thesis using I3 by (simp add: loop_left_def)
              next
                case xR: (Inr u)
                have "crawl_loop w start_url max_pages same_origin origin s =
                      crawl_loop w start_url max_pages same_origin origin (?s2\<lparr>queue := q'\<rparr>)"
                  using run B hd Inr bF cR d None xR by (subst crawl_loop.simps) (simp add: Let_def)
                moreover have "I (final_state (crawl_loop w start_url max_pages same_origin origin (?s2\<lparr>queue := q'\<rparr>))) \<and> loop_left max_pages (crawl_loop w start_url max_pages same_origin origin (?s2\<lparr>queue := q'\<rparr>))"
                  by (rule IH(3) [OF run hd [symmetric] refl B Inr bF refl cR d [symmetric] None xR I3 skip visit disc])
                ultimately show ?thesis using hd by simp
              qed
            qed
          qed
        qed
      qed
    qed
  qed
qed

subsection \<open>Link discovery and the invariants of the frontier\<close>

lemma discover_queue:
  "discover w so st vis url hrefs q = (e, q') \<Longrightarrow> distinct q \<Longrightarrow> set q \<inter> vis = {} \<Longrightarrow>
   distinct q' \<and> set q' \<inter> vis = {} \<and> prefix q q'"
proof (induction hrefs arbitrary: q)
  case Nil
  then show ?case by simp
next
  case (Cons h hs)
  show ?case
  proof (cases "norm_url w url h")
    case (Inl x)
    then show ?thesis using Cons.prems by simp
  next
    case (Inr nxt)
    show ?thesis
    proof (cases "\<not> (prefix ''mailto:'' nxt \<or> prefix ''javascript:'' nxt) \<and> nxt \<notin> vis \<and> nxt \<notin> set q
                  \<and> (\<not> so \<or> is_same_origin w st nxt)")
      case True
      then have "discover w so st vis url hs (q @ [nxt]) = (e, q')"
        using Cons.prems(1) Inr by simp
      moreover have "distinct (q @ [nxt])" "set (q @ [nxt]) \<inter> vis = {}"
        using True Cons.prems by auto
      ultimately have "distinct q' \<and> set q' \<inter> vis = {} \<and> prefix (q @ [nxt]) q'"
        by (rule Cons.IH)
      then show ?thesis by (auto dest: append_prefixD)
    next
      case False
      then have "discover w so st vis url hs q = (e, q')"
        using Cons.prems(1) Inr by (auto split: if_splits)
      then show ?thesis using Cons.prems(2,3) by (rule Cons.IH)
    qed
  qed
qed

lemma discover_origin:
  "discover w True st vis url hrefs q = (e, q') \<Longrightarrow> \<forall>u\<in>set q. is_same_origin w st u \<Longrightarrow>
   \<forall>u\<in>set q'. is_same_origin w st u"
proof (induction hrefs arbitrary: q)
  case Nil
  then show ?case by simp
next
  case (Cons h hs)
  show ?case
  proof (cases "norm_url w url h")
    case (Inl x)
    then show ?thesis using Cons.prems by simp
  next
    case (Inr nxt)
    show ?thesis
    proof (cases "\<not> (prefix ''mailto:'' nxt \<or> prefix ''javascript:'' nxt) \<and> nxt \<notin> vis \<and> nxt \<notin> set q
                  \<and> is_same_origin w st nxt")
      case True
      then have "discover w True st vis url hs (q @ [nxt]) = (e, q')"
        using Cons.prems(1) Inr by simp
      moreover have "\<forall>u\<in>set (q @ [nxt]). is_same_origin w st u"
        using True Cons.prems(2) by auto
      ultimately show ?thesis by (rule Cons.IH)
    next
      case False
      then have "discover w True st vis url hs q = (e, q')"
        using Cons.prems(1) Inr by (auto split: if_splits)
      then show ?thesis using Cons.prems(2) by (rule Cons.IH)
    qed
  qed
qed


lemma crawl_loop_frontier:
  assumes "frontier_inv s"
  shows "frontier_inv (final_state (crawl_loop w st mp so og s)) \<and>
         loop_left mp (crawl_loop w st mp so og s)"
proof (rule crawl_loop_invariant_rule [where I = frontier_inv and w = w and same_origin = so
      and start_url = st and max_pages = mp and origin = og, OF assms])
  fix s url rest
  assume "frontier_inv s" and "queue s = url # rest"
  then show "frontier_inv (s\<lparr>queue := rest\<rparr>)"
    by (auto simp: frontier_inv_def)
next
  fix s url rest
  assume "frontier_inv s" and "queue s = url # rest" and "url \<notin> visited s"
  then show "frontier_inv (s\<lparr>queue := rest, visited := insert url (visited s), pg := pg s + 1,
                              captured := captured s @ [url]\<rparr>)"
    by (auto simp: frontier_inv_def)
next
  fix s url hrefs e q
  assume i: "frontier_inv s"
    and d: "discover w so st (visited s) url hrefs (queue s) = (e, q)"
  have "distinct q \<and> set q \<inter> visited s = {} \<and> prefix (queue s) q"
    using d i by (intro discover_queue) (auto simp: frontier_inv_def)
  then show "frontier_inv (s\<lparr>queue := q\<rparr>)"
    using i by (simp add: frontier_inv_def)
qed


lemma crawl_loop_origin:
  assumes "origin_inv w st s"
  shows "origin_inv w st (final_state (crawl_loop w st mp True og s))"
proof -
  have "origin_inv w st (final_state (crawl_loop w st mp True og s)) \<and>
        loop_left mp (crawl_loop w st mp True og s)"
  proof (rule crawl_loop_invariant_rule [where I = "origin_inv w st" and w = w
        and same_origin = True and start_url = st and max_pages = mp and origin = og, OF assms])
    fix s url rest
    assume "origin_inv w st s" and "queue s = url # rest"
    then show "origin_inv w st (s\<lparr>queue := rest\<rparr>)"
      by (auto simp: origin_inv_def)
  next
    fix s url rest
    assume "origin_inv w st s" and "queue s = url # rest"
    then show "origin_inv w st (s\<lparr>queue := rest, visited := insert url (visited s), pg := pg s + 1,
                              captured := captured s @ [url]\<rparr>)"
      by (auto simp: origin_inv_def)
  next
    fix s url hrefs e q
    assume i: "origin_inv w st s"
      and d: "discover w True st (visited s) url hrefs (queue s) = (e, q)"
    have "\<forall>u\<in>set (queue s). is_same_origin w st u"
      using i by (simp add: origin_inv_def)
    with d have "\<forall>u\<in>set q. is_same_origin w st u"
      by (rule discover_origin)
    then show "origin_inv w st (s\<lparr>queue := q\<rparr>)"
      using i by (auto simp: origin_inv_def)
  qed
  then show ?thesis by simp
qed

lemma frontier_inv_init:
  "frontier_inv \<lparr>visited = {}, queue = [start_url], pg = 0, captured = []\<rparr>"
  by (simp add: frontier_inv_def)

lemma crawl_depth1_frontier:
  "frontier_inv (final_state (crawl_depth1 w start_url max_pages same_origin)) \<and>
   loop_left max_pages (crawl_depth1 w start_url max_pages same_origin)"
proof (cases "urlparse w start_url")
  case (Inl e)
  then show ?thesis
    using frontier_inv_init by (simp add: crawl_depth1_def loop_left_def)
next
  case (Inr p)
  then show ?thesis
    using crawl_loop_frontier [OF frontier_inv_init] by (simp add: crawl_depth1_def)
qed

subsection \<open>The claims about the frontier\<close>

lemmas example_eval = crawl_depth1_def crawl_loop.simps example_world_def simple_urlparse_def
      is_same_origin_def norm_url_def Let_def to_lower_def

text \<open>
  Claim C1. However the crawl ends, \<^verbatim>\<open>render_and_capture\<close> has been called at most once for
  each URL, the visited set holds exactly the URLs captured, and no URL is twice in the
  queue or both in the queue and in the visited set. Link discovery keeps it so: it only
  appends to the queue, and never a URL that is visited or queued already.
\<close>

theorem crawl_visits_each_url_once:
  "distinct (captured (final_state (crawl_depth1 w start_url max_pages same_origin))) \<and>
   visited (final_state (crawl_depth1 w start_url max_pages same_origin)) =
     set (captured (final_state (crawl_depth1 w start_url max_pages same_origin))) \<and>
   distinct (queue (final_state (crawl_depth1 w start_url max_pages same_origin))) \<and>
   set (queue (final_state (crawl_depth1 w start_url max_pages same_origin))) \<inter>
     visited (final_state (crawl_depth1 w start_url max_pages same_origin)) = {} \<and>
   (\<forall>vis url hrefs q e q'.
      discover w same_origin start_url vis url hrefs q = (e, q') \<longrightarrow> distinct q \<longrightarrow>
      set q \<inter> vis = {} \<longrightarrow> distinct q' \<and> set q' \<inter> vis = {} \<and> prefix q q')"
proof -
  have "frontier_inv (final_state (crawl_depth1 w start_url max_pages same_origin))"
    using crawl_depth1_frontier [of w start_url max_pages same_origin] by simp
  then show ?thesis
    using discover_queue [of w same_origin start_url] by (simp add: frontier_inv_def) blast
qed

theorem crawl_visits_each_url_once_witness:
  "captured (final_state (crawl_depth1 example_world ''http://site.test/'' 10 True)) =
     [''http://site.test/'', ''http://site.test/a'', ''http://site.test/b'', ''http://site.test/c''] \<and>
   distinct (captured (final_state (crawl_depth1 example_world ''http://site.test/'' 10 True)))"
  using crawl_visits_each_url_once [of example_world "''http://site.test/''" 10 True]
  by (simp add: example_eval)

text \<open>
  Claim C2. With \<^verbatim>\<open>--same-origin\<close>, every URL of the visited set, and so every line of
  \<^verbatim>\<open>visited_urls.txt\<close>, parses and has the scheme and the network location of the start
  URL.
\<close>

theorem crawl_same_origin_only:
  assumes "u \<in> visited (final_state (crawl_depth1 w start_url max_pages True)) \<union>
               visited_urls (crawl_depth1 w start_url max_pages True)"
  shows "\<exists>ps pu. urlparse w start_url = Inr ps \<and> urlparse w u = Inr pu \<and>
                 scheme pu = scheme ps \<and> netloc pu = netloc ps"
proof -
  have sub: "visited_urls out \<subseteq> visited (final_state out)" for out
    by (cases out) simp_all
  with assms have u: "u \<in> visited (final_state (crawl_depth1 w start_url max_pages True))"
    by auto
  show ?thesis
  proof (cases "urlparse w start_url")
    case (Inl e)
    then show ?thesis using u by (simp add: crawl_depth1_def)
  next
    case (Inr p)
    let ?s0 = "\<lparr>visited = {}, queue = [start_url], pg = 0, captured = []\<rparr>"
    have "origin_inv w start_url ?s0"
      using Inr by (simp add: origin_inv_def is_same_origin_def)
    then have "origin_inv w start_url (final_state (crawl_loop w start_url max_pages True (netloc p) ?s0))"
      by (rule crawl_loop_origin)
    then have "is_same_origin w start_url u"
      using u Inr by (simp add: crawl_depth1_def origin_inv_def)
    then show ?thesis
      by (auto simp: is_same_origin_def split: sum.splits)
  qed
qed

theorem crawl_same_origin_only_witness:
  "''http://site.test/b'' \<in> visited (final_state (crawl_depth1 example_world ''http://site.test/'' 10 True)) \<and>
   (\<exists>ps pu. urlparse example_world ''http://site.test/'' = Inr ps \<and>
             urlparse example_world ''http://site.test/b'' = Inr pu \<and>
             scheme pu = scheme ps \<and> netloc pu = netloc ps)"
proof -
  have v: "''http://site.test/b'' \<in> visited (final_state (crawl_depth1 example_world ''http://site.test/'' 10 True))"
    by (simp add: example_eval)
  then have "''http://site.test/b'' \<in> visited (final_state (crawl_depth1 example_world ''http://site.test/'' 10 True)) \<union>
               visited_urls (crawl_depth1 example_world ''http://site.test/'' 10 True)"
    by simp
  from crawl_same_origin_only [OF this] v show ?thesis by simp
qed

subsection \<open>Leaving the loop\<close>









section \<open>Properties of the file names and of the downloads\<close>

lemma safe_char_sub_unsafe: "list_all safe_char (sub_unsafe s)"
  by (induction s) (simp_all add: sub_unsafe_def safe_char_def)

lemma filename_from_url_Inr:
  assumes "urlparse w url = Inr p"
  shows "filename_from_url w url =
         Inr (sub_unsafe ((if basename (path p) = [] then ''index'' else basename (path p)) @
                          (if query p = [] then []
                           else ''_'' @ str_nat (nat (\<bar>py_hash w (query p)\<bar> mod 10 ^ 8)))))"
  using assms by (simp add: filename_from_url_def Let_def)

text \<open>
  Claim C9, as amended. The file name is a function of the parsed path and query of the
  URL and of the string hash of the running process: the base name of the path, or
  \<open>index\<close>, followed for a non-empty query by an underscore and \<open>|hash(query)| mod 10^8\<close> in
  decimal, every character outside \<open>[0-9A-Za-z._-]\<close> replaced by an underscore. Two runs give
  the same name when the query is empty or both hash it to the same value.
\<close>

theorem filename_from_url_determined:
  assumes "urlparse w1 url = Inr p" and "urlparse w2 url = Inr p"
    and "query p = [] \<or> py_hash w1 (query p) = py_hash w2 (query p)"
  shows "filename_from_url w1 url = filename_from_url w2 url \<and>
         (\<exists>name. filename_from_url w1 url = Inr name \<and> name \<noteq> [] \<and> list_all safe_char name \<and>
            name = sub_unsafe ((if basename (path p) = [] then ''index'' else basename (path p)) @
                               (if query p = [] then []
                                else ''_'' @ str_nat (nat (\<bar>py_hash w1 (query p)\<bar> mod 10 ^ 8)))))"
proof -
  have "filename_from_url w1 url = filename_from_url w2 url"
    using assms(3) by (auto simp: filename_from_url_Inr [OF assms(1)] filename_from_url_Inr [OF assms(2)])
  moreover have "sub_unsafe ((if basename (path p) = [] then ''index'' else basename (path p)) @
                               (if query p = [] then []
                                else ''_'' @ str_nat (nat (\<bar>py_hash w1 (query p)\<bar> mod 10 ^ 8)))) \<noteq> []"
    by (simp add: sub_unsafe_def)
  ultimately show ?thesis
    by (simp add: filename_from_url_Inr [OF assms(1)] safe_char_sub_unsafe)
qed

theorem filename_from_url_determined_witness:
  "filename_from_url example_world ''http://site.test/img/logo 1.png'' = Inr ''logo_1.png'' \<and>
   filename_from_url example_world_reseeded ''http://site.test/img/logo 1.png'' = Inr ''logo_1.png''"
proof -
  have p: "urlparse example_world ''http://site.test/img/logo 1.png'' =
             Inr \<lparr>scheme = ''http'', netloc = ''site.test'', path = ''/img/logo 1.png'', query = []\<rparr>"
          "urlparse example_world_reseeded ''http://site.test/img/logo 1.png'' =
             Inr \<lparr>scheme = ''http'', netloc = ''site.test'', path = ''/img/logo 1.png'', query = []\<rparr>"
    by (simp_all add: example_world_reseeded_def example_world_def simple_urlparse_def to_lower_def Let_def)
  have q: "query \<lparr>scheme = ''http'', netloc = ''site.test'', path = ''/img/logo 1.png'', query = []\<rparr> = [] \<or>
           py_hash example_world (query \<lparr>scheme = ''http'', netloc = ''site.test'', path = ''/img/logo 1.png'', query = []\<rparr>) =
           py_hash example_world_reseeded (query \<lparr>scheme = ''http'', netloc = ''site.test'', path = ''/img/logo 1.png'', query = []\<rparr>)"
    by simp
  from filename_from_url_determined [OF p q]
  have e: "filename_from_url example_world ''http://site.test/img/logo 1.png'' =
           filename_from_url example_world_reseeded ''http://site.test/img/logo 1.png''"
    by simp
  have "filename_from_url example_world ''http://site.test/img/logo 1.png'' = Inr ''logo_1.png''"
    by (simp add: filename_from_url_Inr [OF p(1)] sub_unsafe_def safe_char_def basename_def)
  with e show ?thesis by simp
qed

text \<open>
  Python salts the hash of a string anew in every process. For a URL with a query, two
  runs whose hashes differ give two different names.
\<close>

theorem filename_hash_counterexample:
  "filename_from_url example_world ''http://site.test/img/logo.png?v=2'' = Inr ''logo.png_3'' \<and>
   filename_from_url example_world_reseeded ''http://site.test/img/logo.png?v=2'' = Inr ''logo.png_22''"
  by (simp add: filename_from_url_def example_world_reseeded_def example_world_def
      simple_urlparse_def to_lower_def Let_def sub_unsafe_def safe_char_def basename_def
      str_nat.simps digit_char_def)

subsection \<open>What download\_asset returns\<close>

text \<open>
  Where \<^verbatim>\<open>urlparse\<close> accepts the URL, \<open>download_asset\<close> returns a dictionary of one of two
  shapes, whatever the network and the file system do.
\<close>

lemma download_asset_shapes:
  assumes "urlparse w url = Inr p"
  shows "\<exists>d. download_asset w url = Inr d \<and>
             (keys d = [''url'', ''error''] \<or>
              keys d = [''url'', ''local_path'', ''status'', ''content_type'', ''bytes''])"
  using assms
  by (auto simp: download_asset_def filename_from_url_Inr keys_def Let_def split: sum.splits)


section \<open>Properties of parse\_hex and rgb\_to\_hex\<close>

lemma hex_val_table:
  assumes "hex_val c = Some v"
  shows "(c, v) \<in> set [(CHR ''0'', 0), (CHR ''1'', 1), (CHR ''2'', 2), (CHR ''3'', 3), (CHR ''4'', 4),
             (CHR ''5'', 5), (CHR ''6'', 6), (CHR ''7'', 7), (CHR ''8'', 8), (CHR ''9'', 9),
             (CHR ''a'', 10), (CHR ''b'', 11), (CHR ''c'', 12), (CHR ''d'', 13), (CHR ''e'', 14),
             (CHR ''f'', 15), (CHR ''A'', 10), (CHR ''B'', 11), (CHR ''C'', 12), (CHR ''D'', 13),
             (CHR ''E'', 14), (CHR ''F'', 15)]"
  by (rule map_of_SomeD [OF assms [unfolded hex_val_def]])


lemma hex_val_cases:
  assumes "hex_val c = Some v"
  shows "(c = CHR ''0'' \<and> v = 0) \<or> (c = CHR ''1'' \<and> v = 1) \<or> (c = CHR ''2'' \<and> v = 2) \<or>
         (c = CHR ''3'' \<and> v = 3) \<or> (c = CHR ''4'' \<and> v = 4) \<or> (c = CHR ''5'' \<and> v = 5) \<or>
         (c = CHR ''6'' \<and> v = 6) \<or> (c = CHR ''7'' \<and> v = 7) \<or> (c = CHR ''8'' \<and> v = 8) \<or>
         (c = CHR ''9'' \<and> v = 9) \<or> (c = CHR ''a'' \<and> v = 10) \<or> (c = CHR ''b'' \<and> v = 11) \<or>
         (c = CHR ''c'' \<and> v = 12) \<or> (c = CHR ''d'' \<and> v = 13) \<or> (c = CHR ''e'' \<and> v = 14) \<or>
         (c = CHR ''f'' \<and> v = 15) \<or> (c = CHR ''A'' \<and> v = 10) \<or> (c = CHR ''B'' \<and> v = 11) \<or>
         (c = CHR ''C'' \<and> v = 12) \<or> (c = CHR ''D'' \<and> v = 13) \<or> (c = CHR ''E'' \<and> v = 14) \<or>
         (c = CHR ''F'' \<and> v = 15)"
  using hex_val_table [OF assms] by (simp only: set_simps insert_iff empty_iff prod.inject simp_thms)

lemma hex_char_lt:
  assumes "hex_val c = Some v"
  shows "v < 16"
  using hex_val_cases [OF assms] by (elim disjE conjE) simp_all


lemma hex_char_digit:
  assumes "hex_val c = Some v"
  shows "hex_digit_char v = to_lower c"
  using hex_val_cases [OF assms]
  by (elim disjE conjE) (simp_all add: hex_digit_char_def to_lower_def)

lemma hex_val_lower:
  assumes "hex_val c = Some v"
  shows "hex_val (to_lower c) = Some v"
  using hex_val_cases [OF assms]
  by (elim disjE conjE) (simp_all add: hex_val_def to_lower_def)

lemma hex_char_plain:
  assumes "hex_val c = Some v"
  shows "\<not> is_int_space c" and "c \<noteq> CHR ''-''" and "c \<noteq> CHR ''+''" and "c \<noteq> CHR ''_''"
    and "c \<noteq> CHR ''x''" and "c \<noteq> CHR ''X''" and "c \<noteq> CHR ''#''"
  using hex_val_cases [OF assms]
  by (elim disjE conjE; simp add: is_int_space_def)+


lemma py_int16_pair:
  assumes a: "hex_val a = Some x" and b: "hex_val b = Some y"
  shows "py_int16 [a, b] = Inr (int (16 * x + y))"
proof -
  have strip: "rev (dropWhile is_int_space (rev (dropWhile is_int_space [a, b]))) = [a, b]"
    using hex_char_plain(1) [OF a] hex_char_plain(1) [OF b] by simp
  have digits: "hex_digits [a, b] = Some (16 * x + y)"
    using a b hex_char_plain(4) [OF a] hex_char_plain(4) [OF b] by (simp add: hex_digits_def)
  show ?thesis
    unfolding py_int16_def strip
    using hex_char_plain(2,3) [OF a] hex_char_plain(5,6) [OF b] digits
    by (simp add: Let_def)
qed

lemma fmt_02x_nat:
  "fmt_02x (int n) = (let d = hex_str n in if length d < 2 then ''0'' @ d else d)"
  by (simp add: fmt_02x_def)

lemma fmt_02x_pair:
  assumes "x < 16" and "y < 16"
  shows "fmt_02x (int (16 * x + y)) = [hex_digit_char x, hex_digit_char y]"
proof (cases "x = 0")
  case True
  have "hex_str y = [hex_digit_char y]"
    using assms(2) by (subst hex_str.simps) simp
  then show ?thesis
    unfolding fmt_02x_nat using True by (simp add: hex_digit_char_def)
next
  case False
  have "hex_str x = [hex_digit_char x]"
    using assms(1) by (subst hex_str.simps) simp
  moreover have "hex_str (16 * x + y) = hex_str x @ [hex_digit_char y]"
    using False assms by (subst hex_str.simps) simp
  ultimately show ?thesis
    unfolding fmt_02x_nat by simp
qed

lemma pair_round_trip:
  assumes a: "hex_val a = Some x" and b: "hex_val b = Some y"
  shows "\<exists>n. py_int16 [a, b] = Inr n \<and> fmt_02x n = [to_lower a, to_lower b] \<and>
             py_int16 [to_lower a, to_lower b] = Inr n"
proof -
  have "fmt_02x (int (16 * x + y)) = [to_lower a, to_lower b]"
    using fmt_02x_pair [OF hex_char_lt [OF a] hex_char_lt [OF b]]
    by (simp add: hex_char_digit [OF a] hex_char_digit [OF b])
  moreover have "py_int16 [to_lower a, to_lower b] = Inr (int (16 * x + y))"
    by (rule py_int16_pair [OF hex_val_lower [OF a] hex_val_lower [OF b]])
  ultimately show ?thesis
    using py_int16_pair [OF a b] by simp
qed


lemma lstrip_hash:
  assumes "hex_val a = Some x"
  shows "lstrip ''#'' (a # r) = a # r" and "lstrip ''#'' (CHR ''#'' # a # r) = a # r"
  using hex_char_plain(7) [OF assms] by (simp_all add: lstrip_def)

lemma parse_hex_six:
  assumes h: "hex_val d1 = Some v1" "hex_val d2 = Some v2" "hex_val d3 = Some v3"
             "hex_val d4 = Some v4" "hex_val d5 = Some v5" "hex_val d6 = Some v6"
    and r: "length rest = 0 \<or> length rest = 2"
    and t: "token = d1 # d2 # d3 # d4 # d5 # d6 # rest \<or>
            token = CHR ''#'' # d1 # d2 # d3 # d4 # d5 # d6 # rest"
  shows "parse_hex token =
         Inr (int (16 * v1 + v2), int (16 * v3 + v4), int (16 * v5 + v6))"
proof -
  have l: "lstrip ''#'' token = d1 # d2 # d3 # d4 # d5 # d6 # rest"
    using t lstrip_hash [OF h(1)] by auto
  have n: "\<not> (length (d1 # d2 # d3 # d4 # d5 # d6 # rest) = 3 \<or>
              length (d1 # d2 # d3 # d4 # d5 # d6 # rest) = 4)"
    by simp
  have y: "length (d1 # d2 # d3 # d4 # d5 # d6 # rest) = 6 \<or>
           length (d1 # d2 # d3 # d4 # d5 # d6 # rest) = 8"
    using r by auto
  show ?thesis
    unfolding parse_hex_def l Let_def if_not_P [OF n] if_P [OF y]
    by (simp add: py_int16_pair [OF h(1) h(2)] py_int16_pair [OF h(3) h(4)]
        py_int16_pair [OF h(5) h(6)])
qed

lemma parse_hex_three:
  assumes h: "hex_val d1 = Some v1" "hex_val d2 = Some v2" "hex_val d3 = Some v3"
    and r: "length rest = 0 \<or> length rest = 1"
    and t: "token = d1 # d2 # d3 # rest \<or> token = CHR ''#'' # d1 # d2 # d3 # rest"
  shows "parse_hex token =
         Inr (int (16 * v1 + v1), int (16 * v2 + v2), int (16 * v3 + v3))"
proof -
  have l: "lstrip ''#'' token = d1 # d2 # d3 # rest"
    using t lstrip_hash [OF h(1)] by auto
  have y: "length (d1 # d2 # d3 # rest) = 3 \<or> length (d1 # d2 # d3 # rest) = 4"
    using r by auto
  show ?thesis
    unfolding parse_hex_def l Let_def if_P [OF y]
    by (simp add: py_int16_pair [OF h(1) h(1)] py_int16_pair [OF h(2) h(2)]
        py_int16_pair [OF h(3) h(3)])
qed

lemma rgb_to_hex_digits:
  assumes h: "hex_val d1 = Some v1" "hex_val d2 = Some v2" "hex_val d3 = Some v3"
             "hex_val d4 = Some v4" "hex_val d5 = Some v5" "hex_val d6 = Some v6"
  shows "rgb_to_hex (int (16 * v1 + v2), int (16 * v3 + v4), int (16 * v5 + v6)) =
         ''#'' @ map to_lower [d1, d2, d3, d4, d5, d6]"
  unfolding rgb_to_hex_def
  by (simp add: fmt_02x_pair [OF hex_char_lt [OF h(1)] hex_char_lt [OF h(2)]]
      fmt_02x_pair [OF hex_char_lt [OF h(3)] hex_char_lt [OF h(4)]]
      fmt_02x_pair [OF hex_char_lt [OF h(5)] hex_char_lt [OF h(6)]]
      hex_char_digit [OF h(1)] hex_char_digit [OF h(2)] hex_char_digit [OF h(3)]
      hex_char_digit [OF h(4)] hex_char_digit [OF h(5)] hex_char_digit [OF h(6)]
      del: of_nat_add of_nat_mult)

lemma six_digits_round_trip:
  assumes h: "hex_val d1 = Some v1" "hex_val d2 = Some v2" "hex_val d3 = Some v3"
             "hex_val d4 = Some v4" "hex_val d5 = Some v5" "hex_val d6 = Some v6"
  shows "parse_hex (''#'' @ map to_lower [d1, d2, d3, d4, d5, d6]) =
         Inr (int (16 * v1 + v2), int (16 * v3 + v4), int (16 * v5 + v6))"
  by (rule parse_hex_six [OF hex_val_lower [OF h(1)] hex_val_lower [OF h(2)]
        hex_val_lower [OF h(3)] hex_val_lower [OF h(4)] hex_val_lower [OF h(5)]
        hex_val_lower [OF h(6)], of "[]"]) simp_all


lemma round_trip_long:
  assumes h: "hex_val d1 = Some v1" "hex_val d2 = Some v2" "hex_val d3 = Some v3"
             "hex_val d4 = Some v4" "hex_val d5 = Some v5" "hex_val d6 = Some v6"
    and r: "length rest = 0 \<or> length rest = 2"
    and t: "t = d1 # d2 # d3 # d4 # d5 # d6 # rest"
    and tok: "token = t \<or> token = CHR ''#'' # t"
  shows "\<exists>rgb. parse_hex token = Inr rgb \<and>
               rgb_to_hex rgb = ''#'' @ map to_lower (six_digits t) \<and>
               parse_hex (rgb_to_hex rgb) = Inr rgb"
proof -
  let ?rgb = "(int (16 * v1 + v2), int (16 * v3 + v4), int (16 * v5 + v6))"
  have six: "six_digits t = [d1, d2, d3, d4, d5, d6]"
    using r by (auto simp: six_digits_def t)
  have p: "parse_hex token = Inr ?rgb"
    using tok unfolding t by (rule parse_hex_six [OF h r])
  have f: "rgb_to_hex ?rgb = ''#'' @ map to_lower (six_digits t)"
    unfolding six by (rule rgb_to_hex_digits [OF h])
  have b: "parse_hex (rgb_to_hex ?rgb) = Inr ?rgb"
    unfolding rgb_to_hex_digits [OF h] by (rule six_digits_round_trip [OF h])
  from p f b show ?thesis by blast
qed

lemma round_trip_short:
  assumes h: "hex_val d1 = Some v1" "hex_val d2 = Some v2" "hex_val d3 = Some v3"
    and r: "length rest = 0 \<or> length rest = 1"
    and t: "t = d1 # d2 # d3 # rest"
    and tok: "token = t \<or> token = CHR ''#'' # t"
  shows "\<exists>rgb. parse_hex token = Inr rgb \<and>
               rgb_to_hex rgb = ''#'' @ map to_lower (six_digits t) \<and>
               parse_hex (rgb_to_hex rgb) = Inr rgb"
proof -
  let ?rgb = "(int (16 * v1 + v1), int (16 * v2 + v2), int (16 * v3 + v3))"
  have six: "six_digits t = [d1, d1, d2, d2, d3, d3]"
    using r by (auto simp: six_digits_def t)
  have p: "parse_hex token = Inr ?rgb"
    using tok unfolding t by (rule parse_hex_three [OF h r])
  have f: "rgb_to_hex ?rgb = ''#'' @ map to_lower (six_digits t)"
    unfolding six by (rule rgb_to_hex_digits [OF h(1) h(1) h(2) h(2) h(3) h(3)])
  have b: "parse_hex (rgb_to_hex ?rgb) = Inr ?rgb"
    unfolding rgb_to_hex_digits [OF h(1) h(1) h(2) h(2) h(3) h(3)]
    by (rule six_digits_round_trip [OF h(1) h(1) h(2) h(2) h(3) h(3)])
  from p f b show ?thesis by blast
qed

text \<open>
  Claim C8. For a token of 3, 4, 6 or 8 hex digits, with or without a leading \<open>#\<close>,
  \<open>parse_hex\<close> returns a triple, \<open>rgb_to_hex\<close> of the triple is \<open>#\<close> followed by the six digits
  the token stands for in lower case, and parsing that string gives the same triple
  again.
\<close>

theorem parse_hex_round_trip:
  assumes hex: "list_all is_hex t"
    and len: "length t \<in> {3, 4, 6, 8}"
    and tok: "token = t \<or> token = CHR ''#'' # t"
  shows "\<exists>rgb. parse_hex token = Inr rgb \<and>
               rgb_to_hex rgb = ''#'' @ map to_lower (six_digits t) \<and>
               parse_hex (rgb_to_hex rgb) = Inr rgb"
proof -
  obtain d1 d2 d3 r3 where t3: "t = d1 # d2 # d3 # r3"
    using len by (cases t rule: list.exhaust [case_names Nil Cons];
                  auto simp: length_Suc_conv numeral_eq_Suc)
  obtain v1 v2 v3 where v: "hex_val d1 = Some v1" "hex_val d2 = Some v2" "hex_val d3 = Some v3"
    using hex unfolding t3 by (auto simp: is_hex_def)
  show ?thesis
  proof (cases "length t = 3 \<or> length t = 4")
    case True
    then have "length r3 = 0 \<or> length r3 = 1" by (auto simp: t3)
    then show ?thesis using t3 tok by (rule round_trip_short [OF v])
  next
    case False
    then have l68: "length t = 6 \<or> length t = 8" using len by auto
    then obtain d4 d5 d6 rest where r3: "r3 = d4 # d5 # d6 # rest"
      unfolding t3 by (auto simp: length_Suc_conv numeral_eq_Suc)
    obtain v4 v5 v6 where w: "hex_val d4 = Some v4" "hex_val d5 = Some v5" "hex_val d6 = Some v6"
      using hex unfolding t3 r3 by (auto simp: is_hex_def)
    have t6: "t = d1 # d2 # d3 # d4 # d5 # d6 # rest" by (simp add: t3 r3)
    have "length rest = 0 \<or> length rest = 2" using l68 by (auto simp: t6)
    then show ?thesis using t6 tok by (rule round_trip_long [OF v w])
  qed
qed

theorem parse_hex_round_trip_witness:
  "parse_hex ''#FfA'' = Inr (255, 255, 170) \<and> rgb_to_hex (255, 255, 170) = ''#ffffaa'' \<and>
   parse_hex ''ffffaa'' = Inr (255, 255, 170)"
proof -
  have 1: "list_all is_hex ''FfA''" by (simp add: is_hex_def hex_val_def)
  have 2: "length ''FfA'' \<in> {3, 4, 6, 8}" by simp
  have 3: "''#FfA'' = ''FfA'' \<or> ''#FfA'' = CHR ''#'' # ''FfA''" by simp
  from parse_hex_round_trip [OF 1 2 3]
  obtain rgb where r: "parse_hex ''#FfA'' = Inr rgb"
      "rgb_to_hex rgb = ''#'' @ map to_lower (six_digits ''FfA'')" by blast
  have e: "parse_hex ''#FfA'' = Inr (255, 255, 170)" by code_simp
  with r(1) have rgb: "rgb = (255, 255, 170)" by simp
  have "rgb_to_hex (255, 255, 170) = ''#ffffaa''"
    using r(2) unfolding rgb by (simp add: six_digits_def to_lower_def)
  moreover have "parse_hex ''ffffaa'' = Inr (255, 255, 170)" by code_simp
  ultimately show ?thesis using e by simp
qed

section \<open>Properties of extract\_urls\_from\_css\<close>

text \<open>The list returned has no duplicates.\<close>

lemma extract_urls_distinct:
  "extract_urls_from_css w css_text base_url = Inr urls \<Longrightarrow> distinct urls"
  by (auto simp: extract_urls_from_css_def Let_def fromkeys_def distinct_fromkeys_into
      split: sum.splits)

text \<open>
  Claim C7 fails on the code. The loop over the \<^verbatim>\<open>url(...)\<close> references skips the empty
  and the \<^verbatim>\<open>data:\<close> ones; the loop over the \<^verbatim>\<open>@import\<close> references has no such test. In
  the style sheet below the \<^verbatim>\<open>data:\<close> image is skipped and the \<^verbatim>\<open>data:\<close> style sheet is
  returned.
\<close>

theorem extract_urls_import_data_kept:
  "extract_urls_from_css example_world
     ''@import \"data:text/css,b{}\"; a { background: url(http://site.test/a.png); } b { background: url(data:image/png;base64,AAAA); }''
     ''http://site.test/s.css'' =
   Inr [''http://site.test/a.png'', ''data:text/css,b{}'']"
  by code_simp

end
